theory Spec2Isabelle
  imports Complex_Main "HOL-Library.Word" "HOL-Library.Log_Nat"
begin

unbundle bit_operations_syntax

section \<open>JavaScript values used by the WebM fixer\<close>

text \<open>
  An \<open>ArrayBuffer\<close> is a list of bytes. The only exception the fixer can meet is the
  \<open>RangeError\<close> of \<open>DataView\<close> and typed-array accesses, so every fallible operation
  returns \<open>error + 'a\<close> with \<open>Inl RangeError\<close> for the throw.
\<close>

type_synonym byte = "8 word"

datatype error = RangeError

text \<open>
  A JavaScript Number is an IEEE-754 binary64 value: not-a-number, a signed infinity, or a
  finite value given by its sign bit (\<open>True\<close> for negative, so that \<open>-0\<close> is kept) and
  its magnitude, a non-negative rational. The single \<open>NaN\<close> stands for every
  not-a-number value: JavaScript code cannot tell them apart, but the bytes written for
  one can differ, see \<open>float32_bits\<close> below.
\<close>

datatype number = NaN | Infinity bool | Finite bool rat

subsection \<open>IEEE-754 rounding\<close>

text \<open>\<open>ilog2 q\<close> is the binary exponent \<open>\<lfloor>log\<^sub>2 q\<rfloor>\<close> of a positive rational.\<close>

definition ilog2 :: "rat \<Rightarrow> int" where
  "ilog2 q = (if 1 \<le> q then bitlen \<lfloor>q\<rfloor> - 1 else - bitlen (\<lceil>1 / q\<rceil> - 1))"

definition roundTiesToEven :: "rat \<Rightarrow> int" where
  "roundTiesToEven x =
     (let f = \<lfloor>x\<rfloor>; r = x - of_int f
      in if r < 1 / 2 then f else if 1 / 2 < r then f + 1 else if even f then f else f + 1)"

text \<open>
  Rounding a magnitude to a binary format with \<open>p\<close> significant bits and least normal
  exponent \<open>emin\<close>: the value is brought to an integer number of units in the last place
  (subnormal values share the unit of the least normal exponent) and that integer is
  rounded to nearest, ties to even.
\<close>

definition round_mag :: "nat \<Rightarrow> int \<Rightarrow> rat \<Rightarrow> rat" where
  "round_mag p emin q =
     (if q = 0 then 0
      else let t = max (ilog2 q) emin - (int p - 1)
           in of_int (roundTiesToEven (q / 2 powi t)) * 2 powi t)"

definition round_double :: "bool \<Rightarrow> rat \<Rightarrow> number" where
  "round_double s q =
     (let r = round_mag 53 (- 1022) q in if 2 ^ 1024 \<le> r then Infinity s else Finite s r)"

text \<open>The \<open>*\<close> and \<open>/\<close> of JavaScript Numbers (Number::multiply, Number::divide).\<close>

fun number_multiply :: "number \<Rightarrow> number \<Rightarrow> number" where
  "number_multiply NaN y = NaN"
| "number_multiply x NaN = NaN"
| "number_multiply (Infinity s) (Infinity t) = Infinity (s \<noteq> t)"
| "number_multiply (Infinity s) (Finite t r) = (if r = 0 then NaN else Infinity (s \<noteq> t))"
| "number_multiply (Finite s q) (Infinity t) = (if q = 0 then NaN else Infinity (s \<noteq> t))"
| "number_multiply (Finite s q) (Finite t r) = round_double (s \<noteq> t) (q * r)"

fun number_divide :: "number \<Rightarrow> number \<Rightarrow> number" where
  "number_divide NaN y = NaN"
| "number_divide x NaN = NaN"
| "number_divide (Infinity s) (Infinity t) = NaN"
| "number_divide (Infinity s) (Finite t r) = Infinity (s \<noteq> t)"
| "number_divide (Finite s q) (Infinity t) = Finite (s \<noteq> t) 0"
| "number_divide (Finite s q) (Finite t r) =
     (if r = 0 then (if q = 0 then NaN else Infinity (s \<noteq> t))
      else round_double (s \<noteq> t) (q / r))"

text \<open>\<open>ToNumber\<close> of an element's \<open>value\<close> field, which is \<open>null\<close> until a read sets it.\<close>

definition ToNumber :: "number option \<Rightarrow> number" where
  "ToNumber v = (case v of None \<Rightarrow> Finite False 0 | Some x \<Rightarrow> x)"

subsection \<open>IEEE-754 binary32 bit patterns\<close>

text \<open>The Number denoted by a 32-bit pattern read as a binary32 float.\<close>

definition float32_value :: "nat \<Rightarrow> number" where
  "float32_value bits =
     (let s = (2 ^ 31 \<le> bits); e = (bits div 2 ^ 23) mod 256; m = bits mod 2 ^ 23
      in if e = 255 then (if m = 0 then Infinity s else NaN)
         else if e = 0 then Finite s (of_nat m * 2 powi (- 149))
         else Finite s (of_nat (2 ^ 23 + m) * 2 powi (int e - 150)))"

text \<open>
  The binary32 pattern of a Number, rounding to nearest with ties to even; values too
  large become infinity. For not-a-number ECMAScript lets the implementation write any
  binary32 NaN encoding, and engines do write different ones (\<open>7F C0 00 00\<close> or
  \<open>FF C0 00 00\<close>, according to how the NaN arose). The pattern written is therefore the
  parameter \<open>nan\<close> of the write and of every function that reaches it, and what is
  proved of them holds for every choice of it.
\<close>

definition float32_bits :: "nat \<Rightarrow> number \<Rightarrow> nat" where
  "float32_bits nan x =
     (case x of
        NaN \<Rightarrow> nan
      | Infinity s \<Rightarrow> (if s then 2 ^ 31 else 0) + 0x7F800000
      | Finite s q \<Rightarrow>
          (if s then 2 ^ 31 else 0) +
          (let r = round_mag 24 (- 126) q
           in if 2 ^ 128 \<le> r then 0x7F800000
              else if r = 0 then 0
              else let e = max (ilog2 r) (- 126); n = nat \<lfloor>r / 2 powi (e - 23)\<rfloor>
                   in if n < 2 ^ 23 then n else nat (e + 127) * 2 ^ 23 + (n - 2 ^ 23)))"

text \<open>The finite values of binary32: a 24-bit integer times a power of two.\<close>

definition float32_magnitude :: "rat \<Rightarrow> bool" where
  "float32_magnitude q \<longleftrightarrow>
     (\<exists>m k. q = of_int m * 2 powi k \<and> 0 \<le> m \<and> m < 2 ^ 24 \<and> - 149 \<le> k \<and> k \<le> 104)"

subsection \<open>DataView and Uint8Array\<close>

text \<open>Big-endian reading of bytes as an unsigned integer, and the four bytes of one.\<close>

definition be32 :: "byte list \<Rightarrow> nat" where
  "be32 bs = foldl (\<lambda>acc b. acc * 256 + unat b) 0 bs"

definition bytes32 :: "nat \<Rightarrow> byte list" where
  "bytes32 n = [of_nat (n div 2 ^ 24), of_nat (n div 2 ^ 16), of_nat (n div 2 ^ 8), of_nat n]"

definition getUint8 :: "byte list \<Rightarrow> nat \<Rightarrow> error + byte" where
  "getUint8 buffer byteOffset =
     (if byteOffset + 1 \<le> length buffer then Inr (buffer ! byteOffset) else Inl RangeError)"

definition getUint32 :: "byte list \<Rightarrow> nat \<Rightarrow> error + nat" where
  "getUint32 buffer byteOffset =
     (if byteOffset + 4 \<le> length buffer then Inr (be32 (take 4 (drop byteOffset buffer)))
      else Inl RangeError)"

definition getFloat32 :: "byte list \<Rightarrow> nat \<Rightarrow> error + number" where
  "getFloat32 buffer byteOffset =
     (if byteOffset + 4 \<le> length buffer
      then Inr (float32_value (be32 (take 4 (drop byteOffset buffer))))
      else Inl RangeError)"

definition setFloat32 :: "nat \<Rightarrow> byte list \<Rightarrow> nat \<Rightarrow> number \<Rightarrow> error + byte list" where
  "setFloat32 nan buffer byteOffset x =
     (if byteOffset + 4 \<le> length buffer
      then Inr (take byteOffset buffer @ bytes32 (float32_bits nan x) @ drop (byteOffset + 4) buffer)
      else Inl RangeError)"

text \<open>
  \<open>new Uint8Array(buffer, byteOffset, len).set(source)\<close>: constructing the view throws
  when the window leaves the buffer, \<open>set\<close> throws when the source is longer than the
  window, and otherwise the source is copied to the start of the window.
\<close>

definition Uint8Array_set :: "byte list \<Rightarrow> nat \<Rightarrow> nat \<Rightarrow> byte list \<Rightarrow> error + byte list" where
  "Uint8Array_set buffer byteOffset len source =
     (if length buffer < byteOffset + len then Inl RangeError
      else if len < length source then Inl RangeError
      else Inr (take byteOffset buffer @ source @ drop (byteOffset + length source) buffer))"

section \<open>Decoder\<close>

record ebml_header =
  id' :: nat
  size' :: nat
  headerLength :: nat

definition readEbmlHeader :: "byte list \<Rightarrow> nat \<Rightarrow> error + ebml_header" where
  "readEbmlHeader buffer offset =
     (case getUint32 buffer offset of
        Inl e \<Rightarrow> Inl e
      | Inr i \<Rightarrow>
          (case getUint8 buffer (offset + 4) of
             Inl e \<Rightarrow> Inl e
           | Inr sizeByte \<Rightarrow>
               Inr \<lparr>id' = i, size' = unat (sizeByte AND 0x7F), headerLength = 5\<rparr>))"

definition tagMap :: "nat \<rightharpoonup> string" where
  "tagMap = [0x18538067 \<mapsto> ''Segment'', 0x1549A966 \<mapsto> ''Info'',
             0x2AD7B1 \<mapsto> ''TimecodeScale'', 0x4489 \<mapsto> ''Duration'']"

definition typeMap :: "nat \<rightharpoonup> string" where
  "typeMap = [0x18538067 \<mapsto> ''m'', 0x1549A966 \<mapsto> ''m'', 0x2AD7B1 \<mapsto> ''u'', 0x4489 \<mapsto> ''f'']"

definition getTagName :: "nat \<Rightarrow> string" where
  "getTagName i = (case tagMap i of Some n \<Rightarrow> n | None \<Rightarrow> ''Unknown'')"

definition getTagType :: "nat \<Rightarrow> string" where
  "getTagType i = (case typeMap i of Some t \<Rightarrow> t | None \<Rightarrow> ''b'')"

datatype element =
  Element (name: string) (type: string) (dataOffset: nat) (dataSize: nat)
    (children: "element list") (val: "number option")

text \<open>The two reads that fill \<open>element.value\<close> in the scan loop.\<close>

definition read_value :: "byte list \<Rightarrow> string \<Rightarrow> nat \<Rightarrow> error + number option" where
  "read_value buffer ty dOffset =
     (if ty = ''f'' then
        (case getFloat32 buffer dOffset of Inl e \<Rightarrow> Inl e | Inr x \<Rightarrow> Inr (Some x))
      else if ty = ''u'' then
        (case getUint32 buffer dOffset of
           Inl e \<Rightarrow> Inl e
         | Inr n \<Rightarrow> Inr (Some (Finite False (of_nat n))))
      else Inr None)"

text \<open>
  The \<open>while (offset < buffer.byteLength)\<close> loop of \<open>decode\<close>. \<open>None\<close> stands for a
  loop that never returns.
\<close>

partial_function (option) decode_loop ::
  "byte list \<Rightarrow> nat \<Rightarrow> element list \<Rightarrow> (error + element list) option" where
  "decode_loop buffer offset elements =
     (if offset < length buffer then
        (case readEbmlHeader buffer offset of
           Inl e \<Rightarrow> Some (Inl e)
         | Inr h \<Rightarrow>
             (let dOffset = offset + headerLength h; ty = getTagType (id' h) in
              (case read_value buffer ty dOffset of
                 Inl e \<Rightarrow> Some (Inl e)
               | Inr v \<Rightarrow>
                   decode_loop buffer (dOffset + size' h)
                     (elements @ [Element (getTagName (id' h)) ty dOffset (size' h) [] v]))))
      else Some (Inr elements))"

text \<open>One iteration of the loop body: the element it pushes, or the error it throws.\<close>

definition element_at :: "byte list \<Rightarrow> nat \<Rightarrow> error + element" where
  "element_at buffer offset =
     (case readEbmlHeader buffer offset of
        Inl e \<Rightarrow> Inl e
      | Inr h \<Rightarrow>
          (let dOffset = offset + headerLength h; ty = getTagType (id' h) in
           (case read_value buffer ty dOffset of
              Inl e \<Rightarrow> Inl e
            | Inr v \<Rightarrow> Inr (Element (getTagName (id' h)) ty dOffset (size' h) [] v))))"

text \<open>\<open>e.children.push(c)\<close> for each \<open>c\<close> of a list, and the replacement of the first
  element of an array that satisfies a test (the object that \<open>find\<close> returned).\<close>

definition push_children :: "element \<Rightarrow> element list \<Rightarrow> element" where
  "push_children e cs =
     Element (name e) (type e) (dataOffset e) (dataSize e) (children e @ cs) (val e)"

fun update_first :: "('a \<Rightarrow> bool) \<Rightarrow> 'a \<Rightarrow> 'a list \<Rightarrow> 'a list" where
  "update_first P y [] = []"
| "update_first P y (x # xs) = (if P x then y # xs else x # update_first P y xs)"

definition named :: "string \<Rightarrow> element \<Rightarrow> bool" where
  "named n e \<longleftrightarrow> name e = n"

text \<open>The simplified tree that \<open>decode\<close> stitches by hand after the scan.\<close>

definition build_tree :: "element list \<Rightarrow> element list" where
  "build_tree elements =
     (case find (named ''Segment'') elements of
        None \<Rightarrow> elements
      | Some segment \<Rightarrow>
          (case find (named ''Info'') elements of
             None \<Rightarrow> elements
           | Some info \<Rightarrow>
               (let duration = find (named ''Duration'') elements;
                    timecode = find (named ''TimecodeScale'') elements;
                    info1 = push_children info (case duration of None \<Rightarrow> [] | Some d \<Rightarrow> [d]);
                    info2 = push_children info1 (case timecode of None \<Rightarrow> [] | Some t \<Rightarrow> [t]);
                    segment1 = push_children segment [info2]
                in update_first (named ''Segment'') segment1
                     (update_first (named ''Info'') info2 elements))))"

definition decode :: "byte list \<Rightarrow> (error + element list) option" where
  "decode buffer =
     (case decode_loop buffer 0 [] of
        None \<Rightarrow> None
      | Some (Inl e) \<Rightarrow> Some (Inl e)
      | Some (Inr elements) \<Rightarrow> Some (Inr (build_tree elements)))"

text \<open>
  The elements of a scan that runs to completion from a given cursor, as a check on a
  candidate list: each one is what the loop body makes at the cursor the previous one
  left, and the cursor ends at or beyond the end of the buffer.
\<close>

fun scanned :: "byte list \<Rightarrow> nat \<Rightarrow> element list \<Rightarrow> bool" where
  "scanned b off [] = (length b \<le> off)"
| "scanned b off (el # rest) =
     (off < length b \<and> element_at b off = Inr el \<and> scanned b (off + 5 + dataSize el) rest)"

text \<open>The cursor at the start of the iteration that made the \<open>i\<close>-th element.\<close>

definition start_offset :: "element list \<Rightarrow> nat \<Rightarrow> nat" where
  "start_offset es i =
     (if i = 0 then 0 else dataOffset (es ! (i - 1)) + dataSize (es ! (i - 1)))"

text \<open>The element at payload offset \<open>p\<close> with its float value read again from \<open>b\<close>.\<close>

definition reread :: "byte list \<Rightarrow> nat \<Rightarrow> element \<Rightarrow> element" where
  "reread b p e =
     (if dataOffset e = p
      then Element (name e) (type e) (dataOffset e) (dataSize e) (children e)
             (Some (float32_value (be32 (take 4 (drop p b)))))
      else e)"

section \<open>WebMSeeker\<close>

definition segmentEl :: "element list \<Rightarrow> element option" where
  "segmentEl elms = find (named ''Segment'') elms"

definition infoEl :: "element list \<Rightarrow> element option" where
  "infoEl elms =
     (case segmentEl elms of None \<Rightarrow> None | Some s \<Rightarrow> find (named ''Info'') (children s))"

definition durationEl :: "element list \<Rightarrow> element option" where
  "durationEl elms =
     (case infoEl elms of None \<Rightarrow> None | Some i \<Rightarrow> find (named ''Duration'') (children i))"

definition timecodeScaleEl :: "element list \<Rightarrow> element option" where
  "timecodeScaleEl elms =
     (case infoEl elms of None \<Rightarrow> None | Some i \<Rightarrow> find (named ''TimecodeScale'') (children i))"

text \<open>\<open>durationEl.value * timecodeScaleEl.value / 1000 / 1000\<close>\<close>

definition scaled_duration :: "number option \<Rightarrow> number option \<Rightarrow> number" where
  "scaled_duration dv tv =
     number_divide
       (number_divide (number_multiply (ToNumber dv) (ToNumber tv)) (Finite False 1000))
       (Finite False 1000)"

text \<open>The part of \<open>process\<close> after the decoder has returned; the result is the content
  of the returned blob.\<close>

definition patch :: "nat \<Rightarrow> byte list \<Rightarrow> element list \<Rightarrow> error + byte list" where
  "patch nan buffer elms =
     (case infoEl elms of
        None \<Rightarrow> Inr buffer
      | Some i \<Rightarrow>
          (case (durationEl elms, timecodeScaleEl elms) of
             (Some d, Some t) \<Rightarrow>
               (case setFloat32 nan (replicate 4 0) 0 (scaled_duration (val d) (val t)) of
                  Inl e \<Rightarrow> Inl e
                | Inr durationBuffer \<Rightarrow>
                    Uint8Array_set buffer (dataOffset d) (dataSize d) durationBuffer)
           | _ \<Rightarrow> Inr buffer))"

definition process :: "nat \<Rightarrow> byte list \<Rightarrow> (error + byte list) option" where
  "process nan buffer =
     (case decode buffer of
        None \<Rightarrow> None
      | Some (Inl e) \<Rightarrow> Some (Inl e)
      | Some (Inr elms) \<Rightarrow> Some (patch nan buffer elms))"

subsection \<open>The earlier revision of the source\<close>

text \<open>
  The repository also holds an earlier revision of the same classes. Its decoder is the
  one above up to the names of its methods; its \<open>process\<close> checks the kinds of the
  elements it finds before patching, and its \<open>sanitizeFilename\<close> truncates only a
  title longer than \<open>maxLength\<close>.
\<close>

definition patch_part_000 :: "nat \<Rightarrow> byte list \<Rightarrow> element list \<Rightarrow> error + byte list" where
  "patch_part_000 nan buffer elms =
     (case segmentEl elms of
        None \<Rightarrow> Inr buffer
      | Some s \<Rightarrow> if type s \<noteq> ''m'' then Inr buffer else
     (case infoEl elms of
        None \<Rightarrow> Inr buffer
      | Some i \<Rightarrow> if type i \<noteq> ''m'' then Inr buffer else
     (case durationEl elms of
        None \<Rightarrow> Inr buffer
      | Some d \<Rightarrow>
     (case timecodeScaleEl elms of
        None \<Rightarrow> Inr buffer
      | Some t \<Rightarrow> if type t \<noteq> ''u'' then Inr buffer else
          (case setFloat32 nan (replicate 4 0) 0 (scaled_duration (val d) (val t)) of
             Inl e \<Rightarrow> Inl e
           | Inr durationBuffer \<Rightarrow>
               Uint8Array_set buffer (dataOffset d) (dataSize d) durationBuffer)))))"

definition process_part_000 :: "nat \<Rightarrow> byte list \<Rightarrow> (error + byte list) option" where
  "process_part_000 nan buffer =
     (case decode buffer of
        None \<Rightarrow> None
      | Some (Inl e) \<Rightarrow> Some (Inl e)
      | Some (Inr elms) \<Rightarrow> Some (patch_part_000 nan buffer elms))"

text \<open>\<open>process\<close> in terms of the scanned list: the patch is attempted exactly when all
  four names occur in it, with the first Duration and the first TimecodeScale.\<close>

definition patch_flat :: "nat \<Rightarrow> byte list \<Rightarrow> element list \<Rightarrow> error + byte list" where
  "patch_flat nan b es =
     (case find (named ''Segment'') es of
        None \<Rightarrow> Inr b
      | Some s \<Rightarrow>
     (case find (named ''Info'') es of
        None \<Rightarrow> Inr b
      | Some i \<Rightarrow>
     (case find (named ''Duration'') es of
        None \<Rightarrow> Inr b
      | Some d \<Rightarrow>
     (case find (named ''TimecodeScale'') es of
        None \<Rightarrow> Inr b
      | Some t \<Rightarrow>
          Uint8Array_set b (dataOffset d) (dataSize d)
            (bytes32 (float32_bits nan (scaled_duration (val d) (val t))))))))"

section \<open>sanitizeFilename\<close>

text \<open>A JavaScript string is a sequence of UTF-16 code units.\<close>

type_synonym jsstring = "16 word list"

definition js :: "string \<Rightarrow> jsstring" where
  "js s = map (\<lambda>c. of_nat (of_char c)) s"

text \<open>The character class \<open>[<>:"/\\|?*\u0000-\u001F]\<close>.\<close>

definition forbiddenChars :: "16 word \<Rightarrow> bool" where
  "forbiddenChars c \<longleftrightarrow>
     c \<in> {0x3C, 0x3E, 0x3A, 0x22, 0x2F, 0x5C, 0x7C, 0x3F, 0x2A} \<or> c \<le> 0x1F"

text \<open>The class \<open>\s\<close>, which is also what \<open>trim\<close> strips: WhiteSpace and LineTerminator.\<close>

definition whitespace :: "16 word \<Rightarrow> bool" where
  "whitespace c \<longleftrightarrow>
     c \<in> {0x09, 0x0A, 0x0B, 0x0C, 0x0D, 0x20, 0xA0, 0x1680, 0x2028, 0x2029, 0x202F, 0x205F,
          0x3000, 0xFEFF} \<or> (0x2000 \<le> c \<and> c \<le> 0x200A)"

definition trim :: "jsstring \<Rightarrow> jsstring" where
  "trim s = rev (dropWhile whitespace (rev (dropWhile whitespace s)))"

definition space_or_underscore :: "16 word \<Rightarrow> bool" where
  "space_or_underscore c \<longleftrightarrow> whitespace c \<or> c = 0x5F"

text \<open>\<open>replace(/[\s_]+/g, '_')\<close>: every maximal run becomes one underscore.\<close>

function collapse_runs :: "jsstring \<Rightarrow> jsstring" where
  "collapse_runs [] = []"
| "collapse_runs (c # cs) =
     (if space_or_underscore c then 0x5F # collapse_runs (dropWhile space_or_underscore cs)
      else c # collapse_runs cs)"
  by pat_completeness auto
termination
  by (relation "measure length") (auto simp: less_Suc_eq_le length_dropWhile_le)

definition sanitizeFilename :: "jsstring \<Rightarrow> nat \<Rightarrow> jsstring" where
  "sanitizeFilename title maxLength =
     (let sanitized =
        collapse_runs (take maxLength (trim (filter (\<lambda>c. \<not> forbiddenChars c) title)))
      in if sanitized = [] then js ''video_capture'' else sanitized)"

definition sanitizeFilename_part_000 :: "jsstring \<Rightarrow> nat \<Rightarrow> jsstring" where
  "sanitizeFilename_part_000 originalTitle maxLength =
     (let sanitizedTitle = trim (filter (\<lambda>c. \<not> forbiddenChars c) originalTitle);
          sanitizedTitle = (if maxLength < length sanitizedTitle
                            then take maxLength sanitizedTitle else sanitizedTitle);
          sanitizedTitle = collapse_runs sanitizedTitle
      in if sanitizedTitle = [] then js ''video_capture'' else sanitizedTitle)"

text \<open>No two neighbouring underscores, as a check on a string.\<close>

fun no_adjacent_underscores :: "jsstring \<Rightarrow> bool" where
  "no_adjacent_underscores (c # d # cs) =
     (\<not> (c = 0x5F \<and> d = 0x5F) \<and> no_adjacent_underscores (d # cs))"
| "no_adjacent_underscores cs = True"

section \<open>Test data\<close>

text \<open>
  A buffer in the layout the decoder reads: Segment and Info with empty payloads, a
  TimecodeScale of 1000000 and a Duration of 5000.0 in four bytes.
\<close>

definition sample_buffer :: "byte list" where
  "sample_buffer =
     [0x18, 0x53, 0x80, 0x67, 0x80,
      0x15, 0x49, 0xA9, 0x66, 0x80,
      0x00, 0x2A, 0xD7, 0xB1, 0x84, 0x00, 0x0F, 0x42, 0x40,
      0x00, 0x00, 0x44, 0x89, 0x84, 0x45, 0x9C, 0x40, 0x00]"

definition sample_timecode :: "element" where
  "sample_timecode =
     Element ''TimecodeScale'' ''u'' 15 4 [] (Some (Finite False 1000000))"

definition sample_duration :: "element" where
  "sample_duration = Element ''Duration'' ''f'' 24 4 [] (Some (Finite False 5000))"

definition sample_scan :: "element list" where
  "sample_scan =
     [Element ''Segment'' ''m'' 5 0 [] None, Element ''Info'' ''m'' 10 0 [] None,
      sample_timecode, sample_duration]"

definition sample_info :: "element" where
  "sample_info = Element ''Info'' ''m'' 10 0 [sample_duration, sample_timecode] None"

definition sample_tree :: "element list" where
  "sample_tree =
     [Element ''Segment'' ''m'' 5 0 [sample_info] None, sample_info,
      sample_timecode, sample_duration]"

text \<open>The same buffer cut before its Duration element.\<close>

definition sample_no_duration :: "byte list" where
  "sample_no_duration = take 19 sample_buffer"

definition sample_no_duration_tree :: "element list" where
  "sample_no_duration_tree =
     [Element ''Segment'' ''m'' 5 0 [Element ''Info'' ''m'' 10 0 [sample_timecode] None] None,
      Element ''Info'' ''m'' 10 0 [sample_timecode] None, sample_timecode]"

text \<open>That buffer followed by one more byte.\<close>

definition sample_trailing_byte :: "byte list" where
  "sample_trailing_byte = sample_no_duration @ [0x00]"

text \<open>A TimecodeScale of 2000000 and a Duration of 1.0, and what one and two runs of
  \<open>process\<close> make of it.\<close>

definition double_scale_buffer :: "byte list" where
  "double_scale_buffer =
     [0x18, 0x53, 0x80, 0x67, 0x80,
      0x15, 0x49, 0xA9, 0x66, 0x80,
      0x00, 0x2A, 0xD7, 0xB1, 0x84, 0x00, 0x1E, 0x84, 0x80,
      0x00, 0x00, 0x44, 0x89, 0x84, 0x3F, 0x80, 0x00, 0x00]"

definition double_scale_once :: "byte list" where
  "double_scale_once =
     [0x18, 0x53, 0x80, 0x67, 0x80,
      0x15, 0x49, 0xA9, 0x66, 0x80,
      0x00, 0x2A, 0xD7, 0xB1, 0x84, 0x00, 0x1E, 0x84, 0x80,
      0x00, 0x00, 0x44, 0x89, 0x84, 0x40, 0x00, 0x00, 0x00]"

definition double_scale_twice :: "byte list" where
  "double_scale_twice =
     [0x18, 0x53, 0x80, 0x67, 0x80,
      0x15, 0x49, 0xA9, 0x66, 0x80,
      0x00, 0x2A, 0xD7, 0xB1, 0x84, 0x00, 0x1E, 0x84, 0x80,
      0x00, 0x00, 0x44, 0x89, 0x84, 0x40, 0x80, 0x00, 0x00]"

definition double_scale_scan :: "number \<Rightarrow> element list" where
  "double_scale_scan x =
     [Element ''Segment'' ''m'' 5 0 [] None, Element ''Info'' ''m'' 10 0 [] None,
      Element ''TimecodeScale'' ''u'' 15 4 [] (Some (Finite False 2000000)),
      Element ''Duration'' ''f'' 24 4 [] (Some x)]"

text \<open>A Duration of +Infinity with a TimecodeScale of 0, whose product is a NaN.\<close>

definition nan_buffer :: "byte list" where
  "nan_buffer =
     [0x18, 0x53, 0x80, 0x67, 0x80,
      0x15, 0x49, 0xA9, 0x66, 0x80,
      0x00, 0x2A, 0xD7, 0xB1, 0x84, 0x00, 0x00, 0x00, 0x00,
      0x00, 0x00, 0x44, 0x89, 0x84, 0x7F, 0x80, 0x00, 0x00]"

definition nan_scan :: "element list" where
  "nan_scan =
     [Element ''Segment'' ''m'' 5 0 [] None, Element ''Info'' ''m'' 10 0 [] None,
      Element ''TimecodeScale'' ''u'' 15 4 [] (Some (Finite False 0)),
      Element ''Duration'' ''f'' 24 4 [] (Some (Infinity False))]"





section \<open>Evaluation rules\<close>

lemma floor_rat_numeral_div: "\<lfloor>numeral a / numeral b :: rat\<rfloor> = numeral a div numeral b"
  by (metis floor_divide_of_int_eq of_int_numeral)

lemma ceiling_rat_numeral_div:
  "\<lceil>numeral a / numeral b :: rat\<rceil> = - (- numeral a div numeral b)"
  by (metis ceiling_def floor_divide_of_int_eq minus_divide_left of_int_minus of_int_numeral)

lemmas float_eval =
  ilog2_def compute_bitlen round_mag_def roundTiesToEven_def Let_def floor_rat_numeral_div
  ceiling_rat_numeral_div round_double_def float32_value_def float32_bits_def be32_def
  bytes32_def scaled_duration_def ToNumber_def

lemmas read_eval =
  readEbmlHeader_def getUint32_def getUint8_def getFloat32_def read_value_def be32_def
  getTagName_def getTagType_def tagMap_def typeMap_def element_at_def Let_def

section \<open>Binary32 values survive the round trip\<close>

lemma two_powi_nonneg: "0 \<le> k \<Longrightarrow> (2::rat) powi k = 2 ^ nat k"
  by (rule power_int_nonneg_exp)

lemma two_powi_less_iff: "(2::rat) powi a < 2 powi b \<longleftrightarrow> a < b"
proof
  assume "(2::rat) powi a < 2 powi b"
  show "a < b"
  proof (rule ccontr)
    assume "\<not> a < b"
    then have "b \<le> a" by simp
    then have "(2::rat) powi b \<le> 2 powi a" by (rule power_int_increasing) simp
    with \<open>(2::rat) powi a < 2 powi b\<close> show False by simp
  qed
next
  assume "a < b"
  then show "(2::rat) powi a < 2 powi b" by (rule power_int_strict_increasing) simp
qed

lemma two_powi_le_iff: "(2::rat) powi a \<le> 2 powi b \<longleftrightarrow> a \<le> b"
  using two_powi_less_iff [of b a] by (auto simp: not_less [symmetric])

lemma ilog2_bounds:
  assumes "0 < q"
  shows "2 powi (ilog2 q) \<le> q" and "q < 2 powi (ilog2 q + 1)"
proof -
  have "2 powi (ilog2 q) \<le> q \<and> q < 2 powi (ilog2 q + 1)"
  proof (cases "1 \<le> q")
    case True
    define n where "n = \<lfloor>q\<rfloor>"
    have n1: "1 \<le> n" using True by (simp add: n_def le_floor_iff)
    then have n0: "0 < n" by simp
    have bl: "1 \<le> bitlen n" using n0 by (simp add: bitlen_alt_def)
    from bitlen_bounds [OF n0] have lo: "2 ^ nat (bitlen n - 1) \<le> n" and hi: "n < 2 ^ nat (bitlen n)"
      by simp_all
    have il: "ilog2 q = bitlen n - 1" using True by (simp add: ilog2_def n_def)
    have "(2::rat) powi (bitlen n - 1) = of_int (2 ^ nat (bitlen n - 1))"
      using bl by (simp add: power_int_nonneg_exp)
    also have "\<dots> \<le> of_int n" using lo by (simp only: of_int_le_iff)
    also have "\<dots> \<le> q" by (simp add: n_def)
    finally have 1: "2 powi (ilog2 q) \<le> q" by (simp add: il)
    have "q < of_int (n + 1)" using floor_correct [of q] by (simp add: n_def)
    also have "\<dots> \<le> of_int (2 ^ nat (bitlen n))" using hi by (simp only: of_int_le_iff)
    also have "\<dots> = (2::rat) powi (bitlen n)" using bl by (simp add: power_int_nonneg_exp)
    finally have 2: "q < 2 powi (ilog2 q + 1)" by (simp add: il)
    from 1 2 show ?thesis ..
  next
    case False
    then have q1: "q < 1" by simp
    define x where "x = 1 / q"
    have x1: "1 < x" using assms q1 by (simp add: x_def)
    define m where "m = \<lceil>x\<rceil> - 1"
    have m0: "0 < m" using x1 by (simp add: m_def less_ceiling_iff)
    have mx: "of_int m < x" by (simp add: m_def) linarith
    have xm: "x \<le> of_int (m + 1)" by (simp add: m_def)
    define k where "k = bitlen m"
    have k1: "1 \<le> k" using m0 by (simp add: k_def bitlen_alt_def)
    from bitlen_bounds [OF m0] have lo: "2 ^ nat (k - 1) \<le> m" and hi: "m < 2 ^ nat k"
      by (simp_all add: k_def)
    have il: "ilog2 q = - k" using False by (simp add: ilog2_def k_def m_def x_def)
    have "x \<le> of_int (2 ^ nat k)"
    proof -
      have "m + 1 \<le> 2 ^ nat k" using hi by simp
      then have "(of_int (m + 1) :: rat) \<le> of_int (2 ^ nat k)" by (simp only: of_int_le_iff)
      with xm show ?thesis by simp
    qed
    then have "x \<le> 2 powi k" using k1 by (simp add: power_int_nonneg_exp)
    then have "1 / (2 powi k) \<le> 1 / x"
      using x1 by (intro divide_left_mono) simp_all
    then have 1: "2 powi (ilog2 q) \<le> q"
      by (simp add: il x_def power_int_minus_divide)
    have "(2::rat) powi (k - 1) = of_int (2 ^ nat (k - 1))"
      using k1 by (simp add: power_int_nonneg_exp)
    also have "\<dots> \<le> of_int m" using lo by (simp only: of_int_le_iff)
    also have "\<dots> < x" by (rule mx)
    finally have "2 powi (k - 1) < x" .
    then have "1 / x < 1 / (2 powi (k - 1))"
      using x1 by (intro divide_strict_left_mono) simp_all
    moreover have "(2::rat) powi (1 - k) = 1 / 2 powi (k - 1)"
      using power_int_minus_divide [of "2::rat" "k - 1"] by simp
    ultimately have 2: "q < 2 powi (ilog2 q + 1)"
      by (simp add: il x_def)
    from 1 2 show ?thesis ..
  qed
  then show "2 powi (ilog2 q) \<le> q" and "q < 2 powi (ilog2 q + 1)" by simp_all
qed

lemma ilog2_unique:
  assumes "2 powi e \<le> q" and "q < 2 powi (e + 1)"
  shows "ilog2 q = e"
proof -
  have "(0::rat) < 2 powi e" by simp
  then have q0: "0 < q" using assms(1) by (rule less_le_trans)
  note b = ilog2_bounds [OF q0]
  have "2 powi (ilog2 q) < (2::rat) powi (e + 1)" using b(1) assms(2) by simp
  then have 1: "ilog2 q < e + 1" by (simp only: two_powi_less_iff)
  have "(2::rat) powi e < 2 powi (ilog2 q + 1)" using b(2) assms(1) by simp
  then have 2: "e < ilog2 q + 1" by (simp only: two_powi_less_iff)
  from 1 2 show ?thesis by simp
qed

lemma ilog2_less:
  assumes "0 < q" and "q < 2 powi e"
  shows "ilog2 q < e"
proof -
  have "2 powi (ilog2 q) < (2::rat) powi e" using ilog2_bounds(1) [OF assms(1)] assms(2) by simp
  then show ?thesis by (simp only: two_powi_less_iff)
qed

lemma roundTiesToEven_of_int: "roundTiesToEven (of_int n) = n"
  by (simp add: roundTiesToEven_def)

text \<open>A value that fits the format is not changed by rounding.\<close>

lemma round_mag_exact:
  assumes m: "0 \<le> m" "m < 2 ^ p" and k: "emin - (int p - 1) \<le> k"
  shows "round_mag p emin (of_int m * 2 powi k) = of_int m * 2 powi k"
proof (cases "m = 0")
  case True
  then show ?thesis by (simp add: round_mag_def)
next
  case False
  with m have m0: "0 < m" by simp
  let ?q = "of_int m * (2::rat) powi k"
  have q0: "0 < ?q" using m0 by simp
  have "?q < 2 ^ p * 2 powi k"
    using m(2) by (intro mult_strict_right_mono) (simp_all flip: of_int_less_iff)
  also have "\<dots> = 2 powi (int p + k)"
    by (simp add: power_int_add)
  finally have "ilog2 ?q < int p + k" using q0 by (intro ilog2_less)
  then have tk: "max (ilog2 ?q) emin - (int p - 1) \<le> k" using k by simp
  define t where "t = max (ilog2 ?q) emin - (int p - 1)"
  have "?q / 2 powi t = of_int m * 2 powi (k - t)"
    by (simp add: power_int_diff)
  also have "\<dots> = of_int (m * 2 ^ nat (k - t))"
    using tk by (simp add: t_def power_int_nonneg_exp)
  finally have "roundTiesToEven (?q / 2 powi t) = m * 2 ^ nat (k - t)"
    by (simp only: roundTiesToEven_of_int)
  then have "of_int (roundTiesToEven (?q / 2 powi t)) * 2 powi t = of_int m * 2 powi (k - t) * 2 powi t"
    using tk by (simp add: t_def power_int_nonneg_exp)
  also have "\<dots> = ?q"
    by (simp add: power_int_diff)
  finally show ?thesis
    using q0 by (simp add: round_mag_def Let_def t_def)
qed


lemma round_double_exact:
  assumes "0 \<le> m" "m < 2 ^ 53" "- 1074 \<le> k" "of_int m * 2 powi k < (2::rat) ^ 1024"
  shows "round_double s (of_int m * 2 powi k) = Finite s (of_int m * 2 powi k)"
proof -
  have "round_mag 53 (- 1022) (of_int m * 2 powi k) = of_int m * 2 powi k"
    using assms(1-3) by (intro round_mag_exact) simp_all
  with assms(4) show ?thesis
    by (simp add: round_double_def)
qed

lemma float32_value_Finite:
  assumes "float32_value bits = Finite s q"
  shows "float32_magnitude q"
proof -
  define e where "e = (bits div 2 ^ 23) mod 256"
  define m where "m = bits mod 2 ^ 23"
  have m: "m < 2 ^ 23" by (simp add: m_def)
  have e: "e < 256" by (simp add: e_def)
  from assms have ne: "e \<noteq> 255"
    by (auto simp: float32_value_def Let_def e_def split: if_splits)
  show ?thesis
  proof (cases "e = 0")
    case True
    with assms have "q = of_int (int m) * 2 powi (- 149)"
      by (simp add: float32_value_def Let_def e_def m_def)
    moreover have "int m < 2 ^ 24" using m by simp
    ultimately show ?thesis
      unfolding float32_magnitude_def by (intro exI [of _ "int m"] exI [of _ "- 149"]) simp
  next
    case False
    with assms ne have "q = of_int (int (2 ^ 23 + m)) * 2 powi (int e - 150)"
      by (simp add: float32_value_def Let_def e_def m_def)
    moreover have "int (2 ^ 23 + m) < 2 ^ 24" using m by simp
    moreover have "- 149 \<le> int e - 150" "int e - 150 \<le> 104" using False ne e by simp_all
    ultimately show ?thesis
      unfolding float32_magnitude_def
      by (intro exI [of _ "int (2 ^ 23 + m)"] exI [of _ "int e - 150"]) simp
  qed
qed

lemma float32_magnitude_less: 
  assumes "float32_magnitude q"
  shows "q < 2 ^ 128"
proof -
  from assms obtain m k where q: "q = of_int m * 2 powi k" and m: "0 \<le> m" "m < 2 ^ 24"
    and k: "k \<le> 104"
    unfolding float32_magnitude_def by blast
  have "q < 2 ^ 24 * 2 powi k"
    unfolding q using m(2) by (intro mult_strict_right_mono) (simp_all flip: of_int_less_iff)
  also have "\<dots> \<le> 2 ^ 24 * 2 powi 104"
    using k by (intro mult_left_mono power_int_increasing) simp_all
  also have "\<dots> = 2 ^ 128"
    by simp
  finally show ?thesis .
qed

text \<open>Scaling a binary32 value by a TimecodeScale of 1000000 gives the value back: the
  product and both quotients are exact in binary64.\<close>

lemma scaled_duration_million_Finite:
  assumes "float32_magnitude q"
  shows "scaled_duration (Some (Finite s q)) (Some (Finite False 1000000)) = Finite s q"
proof -
  from assms obtain m k where q: "q = of_int m * 2 powi k" and m: "0 \<le> m" "m < 2 ^ 24"
    and k: "- 149 \<le> k"
    unfolding float32_magnitude_def by blast
  have q0: "0 \<le> q" unfolding q using m(1) by simp
  have lt: "q < 2 ^ 128" using assms by (rule float32_magnitude_less)
  have a: "q * 1000000 = of_int (m * 15625) * 2 powi (k + 6)"
    unfolding q by (simp add: power_int_add)
  have b: "q * 1000 = of_int (m * 125) * 2 powi (k + 3)"
    unfolding q by (simp add: power_int_add)
  have 1: "round_double s (q * 1000000) = Finite s (q * 1000000)"
    unfolding a
  proof (rule round_double_exact)
    show "of_int (m * 15625) * 2 powi (k + 6) < (2::rat) ^ 1024"
      using lt unfolding a [symmetric] by simp
  qed (use m k in simp_all)
  have 2: "round_double s (q * 1000) = Finite s (q * 1000)"
    unfolding b
  proof (rule round_double_exact)
    show "of_int (m * 125) * 2 powi (k + 3) < (2::rat) ^ 1024"
      using lt unfolding b [symmetric] by simp
  qed (use m k in simp_all)
  have 3: "round_double s q = Finite s q"
    unfolding q
  proof (rule round_double_exact)
    show "of_int m * 2 powi k < (2::rat) ^ 1024"
      using lt unfolding q [symmetric] by simp
  qed (use m k in simp_all)
  have "number_multiply (Finite s q) (Finite False 1000000) = Finite s (q * 1000000)"
    by (simp add: 1)
  moreover have "number_divide (Finite s (q * 1000000)) (Finite False 1000) = Finite s (q * 1000)"
    using 2 by (simp add: mult.commute)
  moreover have "number_divide (Finite s (q * 1000)) (Finite False 1000) = Finite s q"
    by (simp add: 3)
  ultimately show ?thesis
    by (simp only: scaled_duration_def ToNumber_def option.case)
qed

lemma scaled_duration_million:
  "scaled_duration (Some (float32_value bits)) (Some (Finite False 1000000)) = float32_value bits"
proof (cases "float32_value bits")
  case NaN
  then show ?thesis by (simp add: scaled_duration_def ToNumber_def)
next
  case (Infinity s)
  then show ?thesis by (simp add: scaled_duration_def ToNumber_def)
next
  case (Finite s q)
  then show ?thesis
    using scaled_duration_million_Finite [OF float32_value_Finite [OF Finite]] by simp
qed


lemma float32_bits_Finite:
  assumes M: "0 < M" "M < 2 ^ 24" and k: "- 149 \<le> k" "k \<le> 104" 
    and sub: "M < 2 ^ 23 \<Longrightarrow> k = - 149"
  shows "float32_bits nan (Finite s (of_int M * 2 powi k)) =
     (if s then 2 ^ 31 else 0) +
     (if M < 2 ^ 23 then nat M else nat (k + 150) * 2 ^ 23 + (nat M - 2 ^ 23))"
proof -
  define q :: rat where "q = of_int M * 2 powi k"
  have q0: "0 < q" using M(1) by (simp add: q_def)
  have mag: "float32_magnitude q"
    unfolding float32_magnitude_def q_def using M k by (intro exI [of _ M] exI [of _ k]) simp
  have r: "round_mag 24 (- 126) q = q"
    unfolding q_def using M k by (intro round_mag_exact) simp_all
  have lt: "\<not> 2 ^ 128 \<le> q"
    using float32_magnitude_less [OF mag] by simp
  define e where "e = max (ilog2 q) (- 126)"
  have split: "e - 23 = k \<and> (M < 2 ^ 23 \<longrightarrow> e = - 126) \<and> (\<not> M < 2 ^ 23 \<longrightarrow> e = k + 23)"
  proof (cases "M < 2 ^ 23")
    case True
    then have k': "k = - 149" by (rule sub)
    have "q < 2 ^ 23 * 2 powi k"
      unfolding q_def using True by (intro mult_strict_right_mono) (simp_all flip: of_int_less_iff)
    also have "\<dots> = 2 powi (- 126)"
      unfolding k' by (simp add: power_int_minus_divide)
    finally have "ilog2 q < - 126" using q0 by (intro ilog2_less)
    then have "e = - 126" by (simp add: e_def)
    with True k' show ?thesis by simp
  next
    case False
    have "2 powi (k + 23) = 2 ^ 23 * (2::rat) powi k"
      by (simp add: power_int_add)
    also have "\<dots> \<le> q"
      unfolding q_def using False by (intro mult_right_mono) (simp_all flip: of_int_le_iff)
    finally have lo: "2 powi (k + 23) \<le> q" .
    have "q < 2 ^ 24 * 2 powi k"
      unfolding q_def using M(2) by (intro mult_strict_right_mono) (simp_all flip: of_int_less_iff)
    also have "\<dots> = 2 powi (k + 23 + 1)"
      by (simp add: power_int_add)
    finally have "ilog2 q = k + 23" using lo by (intro ilog2_unique)
    then have "e = k + 23" using k by (simp add: e_def)
    with False show ?thesis by simp
  qed
  then have "q / 2 powi (e - 23) = of_int M"
    by (simp add: q_def)
  then have n: "nat \<lfloor>q / 2 powi (e - 23)\<rfloor> = nat M"
    by simp
  have res: "(let r = round_mag 24 (- 126) q
           in if 2 ^ 128 \<le> r then 0x7F800000
              else if r = 0 then 0
              else let e = max (ilog2 r) (- 126); n = nat \<lfloor>r / 2 powi (e - 23)\<rfloor>
                   in if n < 2 ^ 23 then n else nat (e + 127) * 2 ^ 23 + (n - 2 ^ 23)) =
      (if nat M < 2 ^ 23 then nat M else nat (e + 127) * 2 ^ 23 + (nat M - 2 ^ 23))"
    unfolding Let_def r e_def [symmetric] n using lt q0 by simp
  have "nat M < 2 ^ 23 \<longleftrightarrow> M < 2 ^ 23"
    using M(1) by (simp add: nat_less_iff)
  with split have "(if nat M < 2 ^ 23 then nat M else nat (e + 127) * 2 ^ 23 + (nat M - 2 ^ 23)) =
      (if M < 2 ^ 23 then nat M else nat (k + 150) * 2 ^ 23 + (nat M - 2 ^ 23))"
    by auto
  with res show ?thesis
    by (simp add: float32_bits_def q_def)
qed


text \<open>Writing back a binary32 value that is not a NaN restores its bit pattern.\<close>

lemma float32_bits_value:
  assumes bits: "bits < 2 ^ 32" and nn: "float32_value bits \<noteq> NaN"
  shows "float32_bits nan (float32_value bits) = bits"
proof -
  define E where "E = bits div 2 ^ 23"
  define e where "e = E mod 256"
  define m where "m = bits mod 2 ^ 23"
  define s where "s = ((2::nat) ^ 31 \<le> bits)"
  have m: "m < 2 ^ 23" by (simp add: m_def)
  have E: "E < 512" using bits by (simp add: E_def less_mult_imp_div_less)
  have bE: "bits = E * 2 ^ 23 + m" by (simp add: E_def m_def)
  have sE: "s \<longleftrightarrow> 256 \<le> E"
    unfolding s_def E_def by (simp add: less_eq_div_iff_mult_less_eq)
  have Ee: "E = (if s then 256 else 0) + e"
    using E unfolding sE e_def by (auto simp: mod_if)
  have sum: "(if s then 2 ^ 31 else 0) + (e * 2 ^ 23 + m) = bits"
    unfolding bE Ee by simp
  have e: "e < 256" by (simp add: e_def)
  have val: "float32_value bits =
      (if e = 255 then (if m = 0 then Infinity s else NaN)
       else if e = 0 then Finite s (of_nat m * 2 powi (- 149))
       else Finite s (of_nat (2 ^ 23 + m) * 2 powi (int e - 150)))"
    by (simp add: float32_value_def Let_def e_def E_def m_def s_def)
  consider (inf) "e = 255" "m = 0" | (zero) "e = 0" "m = 0" | (sub) "e = 0" "0 < m"
    | (norm) "0 < e" "e < 255"
    using nn e unfolding val by (cases "e = 255"; cases "e = 0"; cases "m = 0") auto
  then show ?thesis
  proof cases
    case inf
    then show ?thesis using sum by (simp add: val float32_bits_def)
  next
    case zero
    then show ?thesis using sum by (simp add: val float32_bits_def round_mag_def)
  next
    case sub
    have "float32_bits nan (Finite s (of_int (int m) * 2 powi (- 149))) =
        (if s then 2 ^ 31 else 0) +
        (if int m < 2 ^ 23 then nat (int m)
         else nat (- 149 + 150) * 2 ^ 23 + (nat (int m) - 2 ^ 23))"
      using sub(2) m by (intro float32_bits_Finite) simp_all
    then show ?thesis
      using sub m sum by (simp add: val)
  next
    case norm
    have "float32_bits nan (Finite s (of_int (int (2 ^ 23 + m)) * 2 powi (int e - 150))) =
        (if s then 2 ^ 31 else 0) +
        (if int (2 ^ 23 + m) < 2 ^ 23 then nat (int (2 ^ 23 + m))
         else nat (int e - 150 + 150) * 2 ^ 23 + (nat (int (2 ^ 23 + m)) - 2 ^ 23))"
      using norm m by (intro float32_bits_Finite) simp_all
    then show ?thesis
      using norm m sum by (simp add: val)
  qed
qed

lemma be32_less: "length bs = 4 \<Longrightarrow> be32 bs < 2 ^ 32"
proof -
  assume "length bs = 4"
  then obtain a b c d where bs: "bs = [a, b, c, d]"
    by (auto simp: length_Suc_conv numeral_eq_Suc)
  have "unat a < 256" "unat b < 256" "unat c < 256" "unat d < 256"
    using unsigned_less [of a, where 'a = nat] unsigned_less [of b, where 'a = nat]
      unsigned_less [of c, where 'a = nat] unsigned_less [of d, where 'a = nat]
    by simp_all
  then show ?thesis
    unfolding bs by (simp add: be32_def)
qed

lemma be32_bytes32:
  assumes "n < 2 ^ 32"
  shows "be32 (bytes32 n) = n"
proof -
  have u: "unat (of_nat k :: byte) = k mod 256" for k
    by (simp add: unat_of_nat)
  have "n div 2 ^ 24 < 256" using assms by (simp add: less_mult_imp_div_less)
  then have "be32 (bytes32 n) =
      ((n div 2 ^ 24 * 256 + n div 2 ^ 16 mod 256) * 256 + n div 2 ^ 8 mod 256) * 256 + n mod 256"
    by (simp add: be32_def bytes32_def u)
  also have "\<dots> = n"
  proof -
    have 1: "n div 2 ^ 8 * 256 + n mod 256 = n" by simp
    have "n div 2 ^ 16 = n div 2 ^ 8 div 256"
      using div_mult2_eq [of n "2 ^ 8" 256] by simp
    then have 2: "n div 2 ^ 16 * 256 + n div 2 ^ 8 mod 256 = n div 2 ^ 8"
      using div_mult_mod_eq [of "n div 2 ^ 8" 256] by simp
    have "n div 2 ^ 24 = n div 2 ^ 16 div 256"
      using div_mult2_eq [of n "2 ^ 16" 256] by simp
    then have 3: "n div 2 ^ 24 * 256 + n div 2 ^ 16 mod 256 = n div 2 ^ 16"
      using div_mult_mod_eq [of "n div 2 ^ 16" 256] by simp
    show ?thesis unfolding 3 2 1 ..
  qed
  finally show ?thesis .
qed

lemma bytes32_be32:
  assumes "length bs = 4"
  shows "bytes32 (be32 bs) = bs"
proof -
  from assms obtain a b c d where bs: "bs = [a, b, c, d]"
    by (auto simp: length_Suc_conv numeral_eq_Suc)
  have w: "(of_nat k :: byte) = x" if "k mod 256 = unat x" for k x
    using that by (simp add: word_unat_eq_iff unat_of_nat)
  define n where "n = ((unat a * 256 + unat b) * 256 + unat c) * 256 + unat d"
  have lt: "unat a < 256" "unat b < 256" "unat c < 256" "unat d < 256"
    using unsigned_less [of a, where 'a = nat] unsigned_less [of b, where 'a = nat]
      unsigned_less [of c, where 'a = nat] unsigned_less [of d, where 'a = nat]
    by simp_all
  have 1: "n div 2 ^ 24 = unat a" using lt unfolding n_def by simp
  have 2: "n div 2 ^ 16 = unat a * 256 + unat b" using lt unfolding n_def by simp
  have 3: "n div 2 ^ 8 = (unat a * 256 + unat b) * 256 + unat c" using lt unfolding n_def by simp
  have m: "unat a mod 256 = unat a" "(unat a * 256 + unat b) mod 256 = unat b"
    "((unat a * 256 + unat b) * 256 + unat c) mod 256 = unat c" "n mod 256 = unat d"
    using lt unfolding n_def by (simp_all only: mod_mult_self3 mod_less)
  have "of_nat (n div 2 ^ 24) = a" "of_nat (n div 2 ^ 16) = b" "of_nat (n div 2 ^ 8) = c"
    "of_nat n = d"
    unfolding 1 2 3 by (rule w, rule m)+
  then have "bytes32 n = [a, b, c, d]"
    by (simp add: bytes32_def)
  then show ?thesis
    unfolding bs by (simp add: be32_def n_def)
qed

text \<open>With a TimecodeScale of 1000000 the bytes written for a value that is not a NaN are
  the bytes it was read from.\<close>

lemma million_unchanged:
  assumes "length bs = 4" and "float32_value (be32 bs) \<noteq> NaN"
  shows "bytes32 (float32_bits nan (scaled_duration (Some (float32_value (be32 bs)))
           (Some (Finite False 1000000)))) = bs"
proof -
  have "float32_bits nan (float32_value (be32 bs)) = be32 bs"
    using be32_less [OF assms(1)] assms(2) by (rule float32_bits_value)
  then show ?thesis
    by (simp add: scaled_duration_million bytes32_be32 [OF assms(1)])
qed


section \<open>The header reader and the tag dictionary\<close>

lemma size_mask_le: "unat ((w::byte) AND 0x7F) \<le> 127"
proof -
  have "w AND 0x7F \<le> 0x7F" by (rule word_and_le1)
  then have "unat (w AND 0x7F) \<le> unat (0x7F :: byte)" by (simp only: word_le_nat_alt)
  then show ?thesis by simp
qed

lemma unat_and_7F: "unat ((w::byte) AND 0x7F) = unat w mod 128"
proof -
  have "(0x7F::byte) = mask 7" by (simp add: mask_eq_exp_minus_1)
  then have "w AND 0x7F = take_bit 7 w" by (simp add: take_bit_eq_mask)
  then show ?thesis by (simp add: take_bit_eq_mod unat_mod)
qed

lemma take4_drop:
  "off + 4 \<le> length b \<Longrightarrow>
   take 4 (drop off b) = [b ! off, b ! (off + 1), b ! (off + 2), b ! (off + 3)]"
  by (auto simp: list_eq_iff_nth_eq numeral_eq_Suc less_Suc_eq)

lemma be32_4: "be32 [a, b, c, d] = unat a * 2 ^ 24 + unat b * 2 ^ 16 + unat c * 2 ^ 8 + unat d"
  by (simp add: be32_def)

lemma readEbmlHeader_eq:
  "readEbmlHeader b off =
     (if off + 5 \<le> length b
      then Inr \<lparr>id' = be32 (take 4 (drop off b)), size' = unat (b ! (off + 4) AND 0x7F),
                headerLength = 5\<rparr>
      else Inl RangeError)"
  by (simp add: readEbmlHeader_def getUint32_def getUint8_def)

lemma readEbmlHeader_Inr:
  assumes "readEbmlHeader b off = Inr h"
  shows "headerLength h = 5" and "size' h \<le> 127" and "off + 5 \<le> length b"
  using assms size_mask_le by (auto simp: readEbmlHeader_eq split: if_splits)

lemma element_at_Inr:
  assumes "element_at b off = Inr el"
  shows "dataOffset el = off + 5" and "dataSize el \<le> 127" and "children el = []"
    and "off + 5 \<le> length b"
  using assms
  by (auto simp: element_at_def Let_def dest: readEbmlHeader_Inr split: sum.splits)

section \<open>The scan loop\<close>

lemma decode_loop_step:
  "decode_loop b off acc =
     (if off < length b then
        (case element_at b off of
           Inl e \<Rightarrow> Some (Inl e)
         | Inr el \<Rightarrow> decode_loop b (off + 5 + dataSize el) (acc @ [el]))
      else Some (Inr acc))"
  by (subst decode_loop.simps)
    (auto simp: element_at_def Let_def dest: readEbmlHeader_Inr split: sum.splits)

lemma decode_loop_induct [case_names step]:
  assumes step: "\<And>off.
     (\<And>el. off < length b \<Longrightarrow> element_at b off = Inr el \<Longrightarrow> P (off + 5 + dataSize el))
     \<Longrightarrow> P off"
  shows "P off"
proof (induction "length b - off" arbitrary: off rule: less_induct)
  case less
  show ?case
    by (rule step, rule less) auto
qed

lemma decode_loop_total: "\<exists>r. decode_loop b off acc = Some r"
proof (induction off arbitrary: acc rule: decode_loop_induct[where b = b])
  case (step off)
  then show ?case
    by (subst decode_loop_step) (auto split: sum.splits)
qed

text \<open>The accumulator is only appended to.\<close>

lemma decode_loop_acc:
  "decode_loop b off acc =
     (case decode_loop b off [] of
        None \<Rightarrow> None
      | Some (Inl e) \<Rightarrow> Some (Inl e)
      | Some (Inr new) \<Rightarrow> Some (Inr (acc @ new)))"
proof (induction off arbitrary: acc rule: decode_loop_induct[where b = b])
  case (step off)
  show ?case
  proof (cases "off < length b")
    case False
    then show ?thesis by (simp add: decode_loop_step)
  next
    case True
    show ?thesis
    proof (cases "element_at b off")
      case (Inl e)
      with True show ?thesis by (simp add: decode_loop_step[of b off])
    next
      case (Inr el)
      have 1: "decode_loop b off acc = decode_loop b (off + 5 + dataSize el) (acc @ [el])"
        using True Inr by (simp add: decode_loop_step[of b off])
      have 2: "decode_loop b off [] = decode_loop b (off + 5 + dataSize el) [el]"
        using True Inr by (simp add: decode_loop_step[of b off])
      show ?thesis
        unfolding 1 2
        using step[OF True Inr, of "acc @ [el]"] step[OF True Inr, of "[el]"]
        by (simp split: option.splits sum.splits)
    qed
  qed
qed

text \<open>A scan returns a list exactly when that list passes the check \<open>scanned\<close>.\<close>

lemma decode_loop_scanned:
  "decode_loop b off [] = Some (Inr es) \<longleftrightarrow> scanned b off es"
proof (induction es arbitrary: off)
  case Nil
  show ?case
  proof (cases "off < length b")
    case False
    then show ?thesis by (simp add: decode_loop_step)
  next
    case True
    then show ?thesis
      by (subst decode_loop_step, subst decode_loop_acc)
        (auto split: sum.splits option.splits)
  qed
next
  case (Cons x xs)
  show ?case
  proof (cases "off < length b")
    case False
    then show ?thesis by (simp add: decode_loop_step)
  next
    case True
    then show ?thesis
      by (subst decode_loop_step, subst decode_loop_acc)
        (auto simp: Cons.IH[symmetric] split: sum.splits option.splits)
  qed
qed

text \<open>
  C9: the scan loop returns on every buffer, from every cursor and accumulator: an
  iteration either throws or moves the cursor forward by 5 plus the declared size, and
  the loop stops as soon as the cursor is not below the buffer length.
\<close>

theorem decode_loop_terminates:
  "(\<exists>r. decode_loop buffer offset elements = Some r) \<and>
   decode_loop buffer offset elements =
     (if offset < length buffer then
        (case element_at buffer offset of
           Inl e \<Rightarrow> Some (Inl e)
         | Inr el \<Rightarrow> decode_loop buffer (offset + 5 + dataSize el) (elements @ [el]))
      else Some (Inr elements))"
  using decode_loop_total [of buffer offset elements] decode_loop_step [of buffer offset elements]
  by simp

section \<open>The sample buffer\<close>

lemma sample_scanned: "scanned sample_buffer 0 sample_scan"
  by (simp add: sample_buffer_def sample_scan_def sample_timecode_def sample_duration_def
      read_eval float32_value_def)

lemma sample_decode_loop: "decode_loop sample_buffer 0 [] = Some (Inr sample_scan)"
  by (simp add: decode_loop_scanned sample_scanned)

lemma sample_decode: "decode sample_buffer = Some (Inr sample_tree)"
  by (simp add: decode_def sample_decode_loop build_tree_def sample_scan_def sample_tree_def
      sample_info_def sample_timecode_def sample_duration_def named_def push_children_def
      Let_def)

section \<open>Claims about the header reader and the tag dictionary\<close>

text \<open>
  C5 (as amended): the header reader does no variable-length decoding. At every buffer
  and offset it reads a fixed four-byte big-endian ID and takes the low seven bits of
  the fifth byte as the size, always reporting a header of 5 bytes whatever the leading
  bits of the first byte are; it throws a RangeError exactly when fewer than five bytes
  remain from the offset, and a leading byte \<open>0x00\<close> is not an error.
\<close>

theorem readEbmlHeader_fixed_width:
  "readEbmlHeader buffer offset =
     (if offset + 5 \<le> length buffer
      then Inr \<lparr>id' = unat (buffer ! offset) * 2 ^ 24 + unat (buffer ! (offset + 1)) * 2 ^ 16 +
                      unat (buffer ! (offset + 2)) * 2 ^ 8 + unat (buffer ! (offset + 3)),
                size' = unat (buffer ! (offset + 4)) mod 128,
                headerLength = 5\<rparr>
      else Inl RangeError)"
  by (simp add: readEbmlHeader_eq take4_drop be32_4 unat_and_7F)

text \<open>
  C5 as stated fails: with a leading byte \<open>0x00\<close> the reader returns the Duration ID
  instead of failing, and on two one-byte variable-length integers (\<open>0x81\<close>, then
  \<open>0x82\<close>) it still consumes five bytes and reads neither value.
\<close>

theorem readEbmlHeader_not_variable_length:
  "readEbmlHeader [0x00, 0x00, 0x44, 0x89, 0x84] 0 =
     Inr \<lparr>id' = 0x4489, size' = 4, headerLength = 5\<rparr> \<and>
   readEbmlHeader [0x81, 0x82, 0x00, 0x00, 0x00] 0 =
     Inr \<lparr>id' = 0x81820000, size' = 0, headerLength = 5\<rparr>"
  by (simp add: readEbmlHeader_def getUint32_def getUint8_def be32_def)

text \<open>
  C7: the dictionary lookups are total functions; every ID other than the four known
  ones gets the name \<open>Unknown\<close> and the kind \<open>b\<close>, and an iteration of the scan that
  meets such an ID reads no payload, pushes the element and goes on behind its payload.
\<close>

theorem unknown_ids_are_skipped:
  assumes "i \<notin> {0x18538067, 0x1549A966, 0x2AD7B1, 0x4489}"
  shows "getTagName i = ''Unknown'' \<and> getTagType i = ''b'' \<and>
    (\<forall>buffer offset elements h.
       offset < length buffer \<and> readEbmlHeader buffer offset = Inr h \<and> id' h = i \<longrightarrow>
       decode_loop buffer offset elements =
         decode_loop buffer (offset + 5 + size' h)
           (elements @ [Element ''Unknown'' ''b'' (offset + 5) (size' h) [] None]))"
proof -
  have n: "getTagName i = ''Unknown''" and t: "getTagType i = ''b''"
    using assms by (simp_all add: getTagName_def getTagType_def tagMap_def typeMap_def)
  have "decode_loop buffer offset elements =
         decode_loop buffer (offset + 5 + size' h)
           (elements @ [Element ''Unknown'' ''b'' (offset + 5) (size' h) [] None])"
    if "offset < length buffer" and "readEbmlHeader buffer offset = Inr h" and "id' h = i"
    for buffer offset elements h
    using that n t readEbmlHeader_Inr(1) [OF that(2)]
    by (subst decode_loop_step) (simp add: element_at_def read_value_def)
  with n t show ?thesis by blast
qed

theorem unknown_ids_are_skipped_witness:
  "(0x1A45DFA3 :: nat) \<notin> {0x18538067, 0x1549A966, 0x2AD7B1, 0x4489} \<and>
   getTagName 0x1A45DFA3 = ''Unknown'' \<and> getTagType 0x1A45DFA3 = ''b'' \<and>
   decode_loop [0x1A, 0x45, 0xDF, 0xA3, 0x81, 0x07] 0 [] =
     Some (Inr [Element ''Unknown'' ''b'' 5 1 [] None])"
proof -
  let ?B = "[0x1A, 0x45, 0xDF, 0xA3, 0x81, 0x07] :: byte list"
  let ?H = "\<lparr>id' = 0x1A45DFA3, size' = 1, headerLength = 5\<rparr>"
  have i: "(0x1A45DFA3 :: nat) \<notin> {0x18538067, 0x1549A966, 0x2AD7B1, 0x4489}"
    by simp
  note skipped = unknown_ids_are_skipped [OF i]
  have n: "getTagName 0x1A45DFA3 = ''Unknown''"
    using skipped by (rule conjunct1)
  have t: "getTagType 0x1A45DFA3 = ''b''"
    using skipped by (rule conjunct2 [THEN conjunct1])
  have h: "readEbmlHeader ?B 0 = Inr ?H"
    by (simp add: readEbmlHeader_def getUint32_def getUint8_def be32_def)
  have "decode_loop ?B 0 [] =
      decode_loop ?B (0 + 5 + size' ?H) ([] @ [Element ''Unknown'' ''b'' (0 + 5) (size' ?H) [] None])"
    by (rule skipped [THEN conjunct2, THEN conjunct2, rule_format]) (simp add: h)
  also have "\<dots> = Some (Inr [Element ''Unknown'' ''b'' 5 1 [] None])"
    by (subst decode_loop_step) simp
  finally show ?thesis
    using i n t by simp
qed

section \<open>The stitched tree\<close>

lemma find_update_first_other:
  "(\<And>x. Q x \<Longrightarrow> \<not> P x) \<Longrightarrow> \<not> P y \<Longrightarrow> find P (update_first Q y xs) = find P xs"
  by (induction xs) auto

lemma find_update_first_same:
  "find P xs = Some x \<Longrightarrow> P y \<Longrightarrow> find P (update_first P y xs) = Some y"
  by (induction xs) (auto split: if_splits)

lemma map_update_first:
  "find P xs = Some x \<Longrightarrow> f y = f x \<Longrightarrow> map f (update_first P y xs) = map f xs"
  by (induction xs) (auto split: if_splits)

lemma find_named: "find (named n) xs = Some x \<Longrightarrow> name x = n"
  by (induction xs) (auto simp: named_def split: if_splits)

text \<open>Stitching changes nothing but \<open>children\<close> fields.\<close>

lemma build_tree_map:
  assumes "\<And>e cs. f (push_children e cs) = f e"
  shows "map f (build_tree es) = map f es"
proof (cases "find (named ''Segment'') es")
  case None
  then show ?thesis by (simp add: build_tree_def)
next
  case (Some seg)
  show ?thesis
  proof (cases "find (named ''Info'') es")
    case None
    with Some show ?thesis by (simp add: build_tree_def)
  next
    case info: (Some inf)
    let ?d = "case find (named ''Duration'') es of None \<Rightarrow> [] | Some d \<Rightarrow> [d]"
    let ?t = "case find (named ''TimecodeScale'') es of None \<Rightarrow> [] | Some t \<Rightarrow> [t]"
    let ?info2 = "push_children (push_children inf ?d) ?t"
    let ?inner = "update_first (named ''Info'') ?info2 es"
    have inner: "map f ?inner = map f es"
      using info assms by (intro map_update_first[where x = inf]) simp_all
    have "name ?info2 = ''Info''"
      using find_named[OF info] by (simp add: push_children_def)
    then have seg': "find (named ''Segment'') ?inner = Some seg"
      using Some by (subst find_update_first_other) (auto simp: named_def)
    have "map f (update_first (named ''Segment'') (push_children seg [?info2]) ?inner) =
        map f ?inner"
      using seg' assms by (intro map_update_first[where x = seg]) simp_all
    with inner Some info show ?thesis
      by (simp add: build_tree_def Let_def)
  qed
qed

lemma scanned_nth:
  "scanned b off es \<Longrightarrow> i < length es \<Longrightarrow>
   dataSize (es ! i) \<le> 127 \<and>
   dataOffset (es ! i) =
     (if i = 0 then off else dataOffset (es ! (i - 1)) + dataSize (es ! (i - 1))) + 5"
proof (induction es arbitrary: off i)
  case Nil
  then show ?case by simp
next
  case (Cons x xs)
  show ?case
  proof (cases i)
    case 0
    with Cons.prems show ?thesis by (auto dest: element_at_Inr)
  next
    case (Suc j)
    with Cons.prems have "j < length xs" and sc: "scanned b (off + 5 + dataSize x) xs"
      and x: "dataOffset x = off + 5"
      by (auto dest: element_at_Inr)
    from Cons.IH[OF sc \<open>j < length xs\<close>] x Suc show ?thesis
      by (cases j) auto
  qed
qed

text \<open>
  C8: every element of a list that \<open>decode\<close> returns declares a payload of at most 127
  bytes, and its payload starts exactly 5 bytes after the cursor at which the element
  was read (the start of the buffer for the first element, the end of the previous
  element's declared payload for the others).
\<close>

theorem decoded_header_is_five_bytes:
  assumes "decode buffer = Some (Inr elms)" and "i < length elms"
  shows "dataSize (elms ! i) \<le> 127 \<and> dataOffset (elms ! i) = start_offset elms i + 5"
proof -
  from assms(1) obtain es where es: "decode_loop buffer 0 [] = Some (Inr es)"
    and elms: "elms = build_tree es"
    by (auto simp: decode_def split: option.splits sum.splits)
  have sc: "scanned buffer 0 es"
    using es by (simp add: decode_loop_scanned)
  have offs: "map dataOffset elms = map dataOffset es"
    and sizes: "map dataSize elms = map dataSize es"
    unfolding elms by (rule build_tree_map; simp add: push_children_def)+
  have len: "length elms = length es"
    using offs by (metis length_map)
  have nth: "dataOffset (elms ! j) = dataOffset (es ! j) \<and> dataSize (elms ! j) = dataSize (es ! j)"
    if "j < length elms" for j
    using that len offs sizes by (metis nth_map)
  have "i - 1 < length elms"
    using assms(2) by simp
  with scanned_nth [OF sc, of i] assms(2) len nth [of i] nth [of "i - 1"]
  show ?thesis
    by (simp add: start_offset_def)
qed

theorem decoded_header_is_five_bytes_witness:
  "decode sample_buffer = Some (Inr sample_tree) \<and> 3 < length sample_tree \<and>
   dataSize (sample_tree ! 3) \<le> 127 \<and>
   dataOffset (sample_tree ! 3) = start_offset sample_tree 3 + 5"
proof -
  have l: "3 < length sample_tree"
    by (simp add: sample_tree_def)
  show ?thesis
    using decoded_header_is_five_bytes [OF sample_decode l] sample_decode l by simp
qed

section \<open>What process finds in the stitched tree\<close>

lemma find_in_set: "find P xs = Some x \<Longrightarrow> x \<in> set xs"
  by (induction xs) (auto split: if_splits)

lemma scanned_children: "scanned b off es \<Longrightarrow> \<forall>e \<in> set es. children e = []"
  by (induction es arbitrary: off) (auto dest: element_at_Inr)

lemma setFloat32_fresh: "setFloat32 nan (replicate 4 0) 0 x = Inr (bytes32 (float32_bits nan x))"
  by (simp add: setFloat32_def)

text \<open>What the hand-stitched tree lets \<open>process\<close> find, in terms of the scanned list.\<close>

lemma tree_no_segment:
  "find (named ''Segment'') es = None \<Longrightarrow> infoEl (build_tree es) = None"
  by (simp add: build_tree_def infoEl_def segmentEl_def)

lemma tree_no_info:
  assumes "\<forall>e \<in> set es. children e = []" and "find (named ''Info'') es = None"
  shows "infoEl (build_tree es) = None"
proof (cases "find (named ''Segment'') es")
  case None
  then show ?thesis by (rule tree_no_segment)
next
  case (Some seg)
  then have "children seg = []"
    using assms(1) find_in_set [of "named ''Segment''" es seg] by simp
  with Some assms(2) show ?thesis
    by (simp add: build_tree_def infoEl_def segmentEl_def)
qed


lemma tree_both:
  assumes ch: "\<forall>e \<in> set es. children e = []"
    and seg: "find (named ''Segment'') es = Some seg"
    and info: "find (named ''Info'') es = Some info"
  shows "infoEl (build_tree es) \<noteq> None"
    and "durationEl (build_tree es) = find (named ''Duration'') es"
    and "timecodeScaleEl (build_tree es) = find (named ''TimecodeScale'') es"
    and "\<exists>s. segmentEl (build_tree es) = Some s \<and> type s = type seg"
    and "\<exists>i. infoEl (build_tree es) = Some i \<and> type i = type info"
proof -
  let ?d = "case find (named ''Duration'') es of None \<Rightarrow> [] | Some d \<Rightarrow> [d]"
  let ?t = "case find (named ''TimecodeScale'') es of None \<Rightarrow> [] | Some t \<Rightarrow> [t]"
  let ?info2 = "push_children (push_children info ?d) ?t"
  let ?inner = "update_first (named ''Info'') ?info2 es"
  let ?seg1 = "push_children seg [?info2]"
  have bt: "build_tree es = update_first (named ''Segment'') ?seg1 ?inner"
    using seg info by (simp add: build_tree_def Let_def)
  have cs: "children seg = []"
    using ch find_in_set [OF seg] by simp
  have ci: "children info = []"
    using ch find_in_set [OF info] by simp
  have ni: "name ?info2 = ''Info''"
    using find_named [OF info] by (simp add: push_children_def)
  have ns: "name ?seg1 = ''Segment''"
    using find_named [OF seg] by (simp add: push_children_def)
  have "find (named ''Segment'') ?inner = find (named ''Segment'') es"
    by (rule find_update_first_other) (simp_all add: named_def ni)
  then have "find (named ''Segment'') ?inner = Some seg"
    using seg by simp
  then have "find (named ''Segment'') (update_first (named ''Segment'') ?seg1 ?inner) = Some ?seg1"
    by (rule find_update_first_same) (simp add: named_def ns)
  then have s: "segmentEl (build_tree es) = Some ?seg1"
    by (simp add: bt segmentEl_def)
  have "children ?seg1 = [?info2]"
    by (simp add: push_children_def cs)
  then have i: "infoEl (build_tree es) = Some ?info2"
    by (simp add: infoEl_def s named_def ni)
  then show "infoEl (build_tree es) \<noteq> None"
    by simp
  show "\<exists>s. segmentEl (build_tree es) = Some s \<and> type s = type seg"
    using s by (simp add: push_children_def)
  show "\<exists>i. infoEl (build_tree es) = Some i \<and> type i = type info"
    using i by (simp add: push_children_def)
  have nd: "name d = ''Duration''" if "find (named ''Duration'') es = Some d" for d
    using find_named [OF that] .
  have nt: "name t = ''TimecodeScale''" if "find (named ''TimecodeScale'') es = Some t" for t
    using find_named [OF that] .
  show "durationEl (build_tree es) = find (named ''Duration'') es"
    by (cases "find (named ''Duration'') es"; cases "find (named ''TimecodeScale'') es")
      (simp_all add: durationEl_def i push_children_def ci named_def nd nt)
  show "timecodeScaleEl (build_tree es) = find (named ''TimecodeScale'') es"
    by (cases "find (named ''Duration'') es"; cases "find (named ''TimecodeScale'') es")
      (simp_all add: timecodeScaleEl_def i push_children_def ci named_def nd nt)
qed


lemma patch_build_tree:
  assumes "scanned b off es"
  shows "patch nan b (build_tree es) = patch_flat nan b es"
proof -
  note ch = scanned_children [OF assms]
  show ?thesis
  proof (cases "find (named ''Segment'') es")
    case None
    then show ?thesis
      by (simp add: patch_def patch_flat_def tree_no_segment)
  next
    case seg: (Some seg)
    show ?thesis
    proof (cases "find (named ''Info'') es")
      case None
      then show ?thesis
        using seg by (simp add: patch_def patch_flat_def tree_no_info [OF ch])
    next
      case info: (Some info)
      note tb = tree_both [OF ch seg info]
      from tb(1) obtain i where i: "infoEl (build_tree es) = Some i"
        by blast
      show ?thesis
        by (cases "find (named ''Duration'') es"; cases "find (named ''TimecodeScale'') es")
          (simp_all add: patch_def patch_flat_def i tb(2,3) seg info setFloat32_fresh)
    qed
  qed
qed

lemma process_flat:
  "process nan b =
     (case decode_loop b 0 [] of
        None \<Rightarrow> None
      | Some (Inl e) \<Rightarrow> Some (Inl e)
      | Some (Inr es) \<Rightarrow> Some (patch_flat nan b es))"
proof (cases "decode_loop b 0 []")
  case None
  then show ?thesis by (simp add: process_def decode_def)
next
  case (Some r)
  show ?thesis
  proof (cases r)
    case (Inl e)
    with Some show ?thesis by (simp add: process_def decode_def)
  next
    case (Inr es)
    with Some have "scanned b 0 es"
      by (simp add: decode_loop_scanned)
    with Some Inr show ?thesis
      by (simp add: process_def decode_def patch_build_tree)
  qed
qed


lemma sample_no_duration_decode:
  "decode sample_no_duration = Some (Inr sample_no_duration_tree)"
proof -
  have "scanned sample_no_duration 0
      [Element ''Segment'' ''m'' 5 0 [] None, Element ''Info'' ''m'' 10 0 [] None, sample_timecode]"
    by (simp add: sample_no_duration_def sample_buffer_def sample_timecode_def read_eval)
  then have "decode_loop sample_no_duration 0 [] =
      Some (Inr [Element ''Segment'' ''m'' 5 0 [] None, Element ''Info'' ''m'' 10 0 [] None,
        sample_timecode])"
    by (simp add: decode_loop_scanned)
  then show ?thesis
    by (simp add: decode_def build_tree_def sample_no_duration_tree_def sample_timecode_def
        named_def push_children_def Let_def)
qed

text \<open>
  When the decoder returns and the tree it built has no Segment, no Info under the
  Segment, no Duration under the Info or no TimecodeScale under the Info, \<open>process\<close>
  returns a buffer with exactly the bytes of the input.
\<close>

lemma process_missing_metadata:
  assumes "decode buffer = Some (Inr elms)"
    and "segmentEl elms = None \<or> infoEl elms = None \<or> durationEl elms = None \<or>
         timecodeScaleEl elms = None"
  shows "process nan buffer = Some (Inr buffer)"
proof -
  have "patch nan buffer elms = Inr buffer"
  proof (cases "infoEl elms")
    case None
    then show ?thesis by (simp add: patch_def)
  next
    case (Some i)
    then have "segmentEl elms \<noteq> None"
      by (auto simp: infoEl_def split: option.splits)
    with Some assms(2) have "durationEl elms = None \<or> timecodeScaleEl elms = None"
      by simp
    with Some show ?thesis
      by (auto simp: patch_def split: option.splits)
  qed
  with assms(1) show ?thesis
    by (simp add: process_def)
qed

lemma sample_no_duration_process:
  "durationEl sample_no_duration_tree = None"
  "process nan sample_no_duration = Some (Inr sample_no_duration)"
proof -
  show d: "durationEl sample_no_duration_tree = None"
    by (simp add: durationEl_def infoEl_def segmentEl_def sample_no_duration_tree_def named_def
        sample_timecode_def)
  then have "segmentEl sample_no_duration_tree = None \<or> infoEl sample_no_duration_tree = None \<or>
      durationEl sample_no_duration_tree = None \<or> timecodeScaleEl sample_no_duration_tree = None"
    by simp
  with sample_no_duration_decode show "process nan sample_no_duration = Some (Inr sample_no_duration)"
    by (rule process_missing_metadata)
qed

text \<open>
  C4: for every buffer in which the decoder finds no Segment, no Info, no Duration or no
  TimecodeScale, \<open>process\<close> is to return the input unchanged. The code does so whenever
  its decoder returns (\<open>process_missing_metadata\<close>), but not on every such buffer:
  \<open>sample_trailing_byte\<close> holds a Segment, an Info and a TimecodeScale and no Duration,
  followed by one byte. The scan reads the three elements, finds its cursor 19 still
  below the length 20, reads a header there beyond the end of the buffer, and \<open>process\<close>
  throws a RangeError. Without the last byte the same buffer is returned as it is.
\<close>

theorem process_throws_on_trailing_byte:
  "element_at sample_trailing_byte 0 = Inr (Element ''Segment'' ''m'' 5 0 [] None) \<and>
   element_at sample_trailing_byte 5 = Inr (Element ''Info'' ''m'' 10 0 [] None) \<and>
   element_at sample_trailing_byte 10 = Inr sample_timecode \<and>
   length sample_trailing_byte = 20 \<and>
   element_at sample_trailing_byte 19 = Inl RangeError \<and>
   decode sample_trailing_byte = Some (Inl RangeError) \<and>
   process nan sample_trailing_byte = Some (Inl RangeError) \<and>
   process nan sample_no_duration = Some (Inr sample_no_duration)"
proof -
  have "decode_loop sample_trailing_byte 0 [] = Some (Inl RangeError)"
    by (simp add: sample_trailing_byte_def sample_no_duration_def sample_buffer_def
        decode_loop.simps read_eval)
  then have "decode sample_trailing_byte = Some (Inl RangeError)"
    and "process nan sample_trailing_byte = Some (Inl RangeError)"
    by (simp_all add: decode_def process_flat)
  moreover have "element_at sample_trailing_byte 0 = Inr (Element ''Segment'' ''m'' 5 0 [] None)"
    "element_at sample_trailing_byte 5 = Inr (Element ''Info'' ''m'' 10 0 [] None)"
    "element_at sample_trailing_byte 10 = Inr sample_timecode"
    "length sample_trailing_byte = 20"
    "element_at sample_trailing_byte 19 = Inl RangeError"
    by (simp_all add: sample_trailing_byte_def sample_no_duration_def sample_buffer_def
        sample_timecode_def read_eval)
  ultimately show ?thesis
    using sample_no_duration_process(2) by simp
qed

section \<open>Claims about sanitizeFilename\<close>

lemma underscore_plain: "\<not> whitespace 0x5F" "\<not> forbiddenChars 0x5F" "space_or_underscore 0x5F"
  by (simp_all add: whitespace_def forbiddenChars_def space_or_underscore_def)

lemma length_collapse_runs: "length (collapse_runs s) \<le> length s"
proof (induction s rule: collapse_runs.induct)
  case 1
  then show ?case by simp
next
  case (2 c cs)
  have "length (dropWhile space_or_underscore cs) \<le> length cs"
    by (rule length_dropWhile_le)
  with 2 show ?case by (auto simp: le_Suc_eq)
qed

lemma set_collapse_runs:
  "x \<in> set (collapse_runs s) \<Longrightarrow> x = 0x5F \<or> (x \<in> set s \<and> \<not> space_or_underscore x)"
proof (induction s rule: collapse_runs.induct)
  case 1
  then show ?case by simp
next
  case (2 c cs)
  then show ?case
    by (auto split: if_splits dest: set_dropWhileD)
qed

lemma collapse_runs_hd:
  "s \<noteq> [] \<Longrightarrow> \<not> space_or_underscore (hd s) \<Longrightarrow>
   collapse_runs s \<noteq> [] \<and> hd (collapse_runs s) \<noteq> 0x5F"
  by (cases s) (auto simp: space_or_underscore_def)

lemma no_adjacent_Cons:
  "no_adjacent_underscores xs \<Longrightarrow> (xs \<noteq> [] \<Longrightarrow> \<not> (c = 0x5F \<and> hd xs = 0x5F)) \<Longrightarrow>
   no_adjacent_underscores (c # xs)"
  by (cases xs) auto

lemma no_adjacent_collapse_runs: "no_adjacent_underscores (collapse_runs s)"
proof (induction s rule: collapse_runs.induct)
  case 1
  then show ?case by simp
next
  case (2 c cs)
  show ?case
  proof (cases "space_or_underscore c")
    case True
    let ?r = "dropWhile space_or_underscore cs"
    have "hd (collapse_runs ?r) \<noteq> 0x5F" if "collapse_runs ?r \<noteq> []"
    proof -
      from that have "?r \<noteq> []" by (cases ?r) simp_all
      then have "\<not> space_or_underscore (hd ?r)" by (rule hd_dropWhile)
      with \<open>?r \<noteq> []\<close> show ?thesis using collapse_runs_hd by blast
    qed
    with 2(1)[OF True] True show ?thesis
      by (auto intro!: no_adjacent_Cons)
  next
    case False
    then have "c \<noteq> 0x5F" by (auto simp: space_or_underscore_def)
    with 2(2)[OF False] False show ?thesis
      by (auto intro!: no_adjacent_Cons)
  qed
qed

lemma set_trim: "set (trim s) \<subseteq> set s"
  unfolding trim_def
  by (metis set_rev set_dropWhileD subsetI)

lemma length_trim: "length (trim s) \<le> length s"
  unfolding trim_def
  by (metis length_rev length_dropWhile_le order_trans)

lemma fallback_eval:
  "js ''video_capture'' =
     [0x76, 0x69, 0x64, 0x65, 0x6F, 0x5F, 0x63, 0x61, 0x70, 0x74, 0x75, 0x72, 0x65]"
  by (simp add: js_def)

lemma fallback_props:
  "length (js ''video_capture'') = 13"
  "\<forall>c \<in> set (js ''video_capture''). \<not> forbiddenChars c \<and> \<not> whitespace c"
  "no_adjacent_underscores (js ''video_capture'')"
  by (simp_all add: fallback_eval forbiddenChars_def whitespace_def)

text \<open>
  C10 (as amended): for every title and every \<open>maxLength\<close> the result is non-empty,
  contains no forbidden character, no control character and no whitespace, has no two
  neighbouring underscores, and is the fallback \<open>video_capture\<close> when sanitization
  leaves nothing. Its length is at most \<open>maxLength\<close> whenever \<open>maxLength\<close> is at
  least 13 (as the default 50 is); in general it is at most the larger of
  \<open>maxLength\<close> and 13, the length of the fallback.
\<close>

theorem sanitizeFilename_result:
  "sanitizeFilename title maxLength \<noteq> [] \<and>
   length (sanitizeFilename title maxLength) \<le> max maxLength 13 \<and>
   (\<forall>c \<in> set (sanitizeFilename title maxLength). \<not> forbiddenChars c \<and> \<not> whitespace c) \<and>
   no_adjacent_underscores (sanitizeFilename title maxLength) \<and>
   (collapse_runs (take maxLength (trim (filter (\<lambda>c. \<not> forbiddenChars c) title))) = [] \<longrightarrow>
      sanitizeFilename title maxLength = js ''video_capture'')"
proof -
  let ?s = "collapse_runs (take maxLength (trim (filter (\<lambda>c. \<not> forbiddenChars c) title)))"
  have len: "length ?s \<le> maxLength"
    using length_collapse_runs [of "take maxLength (trim (filter (\<lambda>c. \<not> forbiddenChars c) title))"]
    by simp
  have chars: "\<not> forbiddenChars c \<and> \<not> whitespace c" if "c \<in> set ?s" for c
  proof -
    from set_collapse_runs [OF that]
    consider "c = 0x5F"
      | "c \<in> set (take maxLength (trim (filter (\<lambda>c. \<not> forbiddenChars c) title)))"
        and "\<not> space_or_underscore c"
      by blast
    then show ?thesis
    proof cases
      case 1
      then show ?thesis by (simp add: underscore_plain)
    next
      case 2
      from 2(1) have "c \<in> set (trim (filter (\<lambda>c. \<not> forbiddenChars c) title))"
        by (rule in_set_takeD)
      with set_trim have "c \<in> set (filter (\<lambda>c. \<not> forbiddenChars c) title)"
        by blast
      with 2(2) show ?thesis by (simp add: space_or_underscore_def)
    qed
  qed
  show ?thesis
  proof (cases "?s = []")
    case True
    then have r: "sanitizeFilename title maxLength = js ''video_capture''"
      by (simp add: sanitizeFilename_def)
    have "js ''video_capture'' \<noteq> []"
      by (simp add: fallback_eval)
    moreover have "length (js ''video_capture'') \<le> max maxLength 13"
      by (simp add: fallback_props(1))
    ultimately show ?thesis
      unfolding r using fallback_props(2,3) by blast
  next
    case False
    then have r: "sanitizeFilename title maxLength = ?s"
      by (simp add: sanitizeFilename_def)
    have "length ?s \<le> max maxLength 13"
      using len by simp
    moreover have "\<forall>c \<in> set ?s. \<not> forbiddenChars c \<and> \<not> whitespace c"
      using chars by blast
    moreover have "no_adjacent_underscores ?s"
      by (rule no_adjacent_collapse_runs)
    ultimately show ?thesis
      unfolding r using False by blast
  qed
qed

theorem sanitizeFilename_result_witness:
  "sanitizeFilename (js ''  My: Video _ 2? '') 50 = js ''My_Video_2'' \<and>
   sanitizeFilename (js ''  My: Video _ 2? '') 50 \<noteq> [] \<and>
   length (sanitizeFilename (js ''  My: Video _ 2? '') 50) \<le> max 50 13 \<and>
   \<not> forbiddenChars (hd (sanitizeFilename (js ''  My: Video _ 2? '') 50)) \<and>
   \<not> whitespace (hd (sanitizeFilename (js ''  My: Video _ 2? '') 50)) \<and>
   no_adjacent_underscores (sanitizeFilename (js ''  My: Video _ 2? '') 50) \<and>
   collapse_runs (take 50 (trim (filter (\<lambda>c. \<not> forbiddenChars c) (js ''?'')))) = [] \<and>
   sanitizeFilename (js ''?'') 50 = js ''video_capture''"
proof -
  note a = sanitizeFilename_result [of "js ''  My: Video _ 2? ''" 50]
  note b = sanitizeFilename_result [of "js ''?''" 50]
  have r: "sanitizeFilename (js ''  My: Video _ 2? '') 50 = js ''My_Video_2''"
    by (simp add: sanitizeFilename_def js_def trim_def forbiddenChars_def whitespace_def
        space_or_underscore_def)
  from a have ne: "sanitizeFilename (js ''  My: Video _ 2? '') 50 \<noteq> []"
    by (rule conjunct1)
  then have "hd (sanitizeFilename (js ''  My: Video _ 2? '') 50) \<in>
      set (sanitizeFilename (js ''  My: Video _ 2? '') 50)"
    by (rule hd_in_set)
  with a have h: "\<not> forbiddenChars (hd (sanitizeFilename (js ''  My: Video _ 2? '') 50)) \<and>
      \<not> whitespace (hd (sanitizeFilename (js ''  My: Video _ 2? '') 50))"
    by blast
  have e: "collapse_runs (take 50 (trim (filter (\<lambda>c. \<not> forbiddenChars c) (js ''?'')))) = []"
    by (simp add: js_def trim_def forbiddenChars_def)
  with b have "sanitizeFilename (js ''?'') 50 = js ''video_capture''"
    by blast
  with a r h e show ?thesis
    by blast
qed

text \<open>
  C10 as stated fails for a \<open>maxLength\<close> below 13: a title of forbidden characters
  only gives the 13-character fallback although \<open>maxLength\<close> is 5.
\<close>

theorem sanitizeFilename_fallback_exceeds_maxLength:
  "sanitizeFilename (js ''?'') 5 = js ''video_capture'' \<and>
   \<not> length (sanitizeFilename (js ''?'') 5) \<le> 5"
  by (simp add: sanitizeFilename_def js_def trim_def forbiddenChars_def whitespace_def
      space_or_underscore_def)

section \<open>What the scan reads\<close>

lemma getTagName_Duration: "getTagName i = ''Duration'' \<Longrightarrow> getTagType i = ''f''"
  by (auto simp: getTagName_def getTagType_def tagMap_def typeMap_def split: if_splits)


lemma element_at_eq:
  "element_at b off =
     (case readEbmlHeader b off of
        Inl e \<Rightarrow> Inl e
      | Inr h \<Rightarrow>
          (case read_value b (getTagType (id' h)) (off + 5) of
             Inl e \<Rightarrow> Inl e
           | Inr v \<Rightarrow>
               Inr (Element (getTagName (id' h)) (getTagType (id' h)) (off + 5) (size' h) [] v)))"
  by (auto simp: element_at_def Let_def dest: readEbmlHeader_Inr split: sum.splits)

lemma element_at_Duration:
  assumes "element_at b off = Inr el" and "name el = ''Duration''"
  shows "type el = ''f''"
    and "val el = Some (float32_value (be32 (take 4 (drop (off + 5) b))))"
    and "off + 9 \<le> length b"
proof -
  from assms(1) obtain h v where h: "readEbmlHeader b off = Inr h"
    and v: "read_value b (getTagType (id' h)) (off + 5) = Inr v"
    and el: "el = Element (getTagName (id' h)) (getTagType (id' h)) (off + 5) (size' h) [] v"
    by (auto simp: element_at_eq split: sum.splits)
  from assms(2) el have ty: "getTagType (id' h) = ''f''"
    by (simp add: getTagName_Duration)
  with el show "type el = ''f''" by simp
  from v ty have "off + 9 \<le> length b \<and> v = Some (float32_value (be32 (take 4 (drop (off + 5) b))))"
    by (auto simp: read_value_def getFloat32_def split: if_splits)
  with el show "val el = Some (float32_value (be32 (take 4 (drop (off + 5) b))))"
    and "off + 9 \<le> length b" by simp_all
qed


text \<open>Every element of a completed scan is what the loop body makes 5 bytes before
  its payload, and payload offsets grow along the list.\<close>

lemma scanned_element_at:
  "scanned b off es \<Longrightarrow> e \<in> set es \<Longrightarrow>
   element_at b (dataOffset e - 5) = Inr e \<and> off + 5 \<le> dataOffset e"
proof (induction es arbitrary: off)
  case Nil
  then show ?case by simp
next
  case (Cons x xs)
  from Cons.prems(1) have x: "element_at b off = Inr x"
    and xs: "scanned b (off + 5 + dataSize x) xs" by simp_all
  have dx: "dataOffset x = off + 5" using x by (rule element_at_Inr)
  show ?case
  proof (cases "e = x")
    case True
    with x dx show ?thesis by simp
  next
    case False
    with Cons.prems(2) have "e \<in> set xs" by simp
    from Cons.IH [OF xs this] show ?thesis by simp
  qed
qed

section \<open>Reads depend on the bytes read only\<close>

lemma take_drop_prefix:
  assumes "take p b' = take p b" and "off + n \<le> p"
  shows "take n (drop off b') = take n (drop off b)"
proof -
  have "take (off + n) (take p b') = take (off + n) (take p b)"
    by (simp only: assms(1))
  then have "take (off + n) b' = take (off + n) b"
    using assms(2) by (simp add: min_absorb1)
  then have "drop off (take (off + n) b') = drop off (take (off + n) b)"
    by simp
  then show ?thesis
    by (simp add: take_drop add.commute)
qed

lemma drop_suffix:
  assumes "drop q b' = drop q b" and "q \<le> off"
  shows "drop off b' = drop off b"
proof -
  have "drop (off - q) (drop q b') = drop (off - q) (drop q b)"
    by (simp only: assms(1))
  then show ?thesis
    using assms(2) by simp
qed

lemma readEbmlHeader_cong:
  assumes "length b' = length b" and "take 5 (drop off b') = take 5 (drop off b)"
  shows "readEbmlHeader b' off = readEbmlHeader b off"
proof (cases "off + 5 \<le> length b")
  case False
  with assms(1) show ?thesis by (simp add: readEbmlHeader_eq)
next
  case True
  have "take 4 (take 5 (drop off b')) = take 4 (take 5 (drop off b))"
    by (simp only: assms(2))
  then have 4: "take 4 (drop off b') = take 4 (drop off b)"
    by simp
  have "take 5 (drop off b') ! 4 = take 5 (drop off b) ! 4"
    by (simp only: assms(2))
  then have n: "b' ! (off + 4) = b ! (off + 4)"
    using True assms(1) by simp
  from True assms(1) show ?thesis
    by (simp add: readEbmlHeader_eq 4 n)
qed

lemma read_value_cong:
  assumes "length b' = length b" and "take 4 (drop q b') = take 4 (drop q b)"
  shows "read_value b' ty q = read_value b ty q"
  using assms by (simp add: read_value_def getFloat32_def getUint32_def)

lemma element_at_cong:
  assumes "length b' = length b" and "take 9 (drop off b') = take 9 (drop off b)"
  shows "element_at b' off = element_at b off"
proof -
  have "take 5 (take 9 (drop off b')) = take 5 (take 9 (drop off b))"
    by (simp only: assms(2))
  then have 5: "take 5 (drop off b') = take 5 (drop off b)"
    by simp
  have "drop 5 (take 9 (drop off b')) = drop 5 (take 9 (drop off b))"
    by (simp only: assms(2))
  then have 4: "take 4 (drop (off + 5) b') = take 4 (drop (off + 5) b)"
    by (simp add: drop_take add.commute)
  have "readEbmlHeader b' off = readEbmlHeader b off"
    using assms(1) 5 by (rule readEbmlHeader_cong)
  moreover have "read_value b' ty (off + 5) = read_value b ty (off + 5)" for ty
    using assms(1) 4 by (rule read_value_cong)
  ultimately show ?thesis
    by (auto simp: element_at_eq split: sum.splits)
qed

lemma scanned_suffix:
  assumes "length b' = length b"
  shows "drop off b' = drop off b \<Longrightarrow> scanned b off es \<Longrightarrow> scanned b' off es"
proof (induction es arbitrary: off)
  case Nil
  with assms show ?case by simp
next
  case (Cons x xs)
  have "element_at b' off = element_at b off"
    using assms Cons.prems(1) by (intro element_at_cong) simp_all
  moreover have "drop (off + 5 + dataSize x) b' = drop (off + 5 + dataSize x) b"
    using Cons.prems(1) by (rule drop_suffix) simp
  ultimately show ?case
    using Cons.prems(2) Cons.IH assms by simp
qed


section \<open>Scanning a patched buffer\<close>

lemma reread_other: "dataOffset e \<noteq> p \<Longrightarrow> reread b p e = e"
  by (simp add: reread_def)

lemma reread_fields:
  "name (reread b p e) = name e" "type (reread b p e) = type e"
  "dataOffset (reread b p e) = dataOffset e" "dataSize (reread b p e) = dataSize e"
  "children (reread b p e) = children e"
  by (simp_all add: reread_def)

text \<open>
  Overwriting four bytes at the start of the payload of a scanned float element whose
  declared size is at least 4 changes nothing of the scan but that element's value.
\<close>

lemma element_at_float:
  assumes x: "element_at b off = Inr x" and ty: "type x = ''f''"
  shows "\<exists>h. readEbmlHeader b off = Inr h \<and> getTagType (id' h) = ''f'' \<and> off + 9 \<le> length b \<and>
    name x = getTagName (id' h) \<and> dataSize x = size' h"
proof -
  from x obtain h v where h: "readEbmlHeader b off = Inr h"
    and v: "read_value b (getTagType (id' h)) (off + 5) = Inr v"
    and el: "x = Element (getTagName (id' h)) (getTagType (id' h)) (off + 5) (size' h) [] v"
    unfolding element_at_eq by (cases "readEbmlHeader b off") (auto split: sum.splits)
  have n: "name x = getTagName (id' h)" and s: "dataSize x = size' h"
    and t: "type x = getTagType (id' h)"
    by (subst el, simp)+
  from ty t have tyh: "getTagType (id' h) = ''f''"
    by simp
  from v have "off + 9 \<le> length b"
    unfolding tyh read_value_def getFloat32_def by (simp split: if_splits)
  with h tyh n s show ?thesis
    by blast
qed

text \<open>The loop body at the cursor of a float element, after the first four bytes of
  its payload have been overwritten.\<close>

lemma element_at_patched:
  assumes len: "length b' = length b" and pre: "take (off + 5) b' = take (off + 5) b"
    and x: "element_at b off = Inr x" and ty: "type x = ''f''"
  shows "element_at b' off = Inr (reread b' (off + 5) x)"
proof -
  from element_at_float [OF x ty] obtain h where h: "readEbmlHeader b off = Inr h"
    and tyh: "getTagType (id' h) = ''f''" and bound: "off + 9 \<le> length b"
    and n: "name x = getTagName (id' h)" and s: "dataSize x = size' h"
    by blast
  note x' = element_at_Inr(1,3) [OF x]
  have "take 5 (drop off b') = take 5 (drop off b)"
    using pre by (rule take_drop_prefix) simp
  with len have "readEbmlHeader b' off = readEbmlHeader b off"
    by (rule readEbmlHeader_cong)
  then have h': "readEbmlHeader b' off = Inr h"
    using h by simp
  have v': "read_value b' ''f'' (off + 5) =
      Inr (Some (float32_value (be32 (take 4 (drop (off + 5) b')))))"
    using bound len by (simp add: read_value_def getFloat32_def)
  have "element_at b' off =
      Inr (Element (getTagName (id' h)) ''f'' (off + 5) (size' h) []
            (Some (float32_value (be32 (take 4 (drop (off + 5) b'))))))"
    unfolding element_at_eq h' by (simp add: tyh v')
  also have "\<dots> = Inr (reread b' (off + 5) x)"
    by (simp add: reread_def x' n s ty)
  finally show ?thesis .
qed

lemma scanned_patch:
  assumes len: "length b' = length b" and pre: "take p b' = take p b"
    and post: "drop (p + 4) b' = drop (p + 4) b"
  shows "scanned b off es \<Longrightarrow> d \<in> set es \<Longrightarrow> dataOffset d = p \<Longrightarrow> type d = ''f'' \<Longrightarrow>
    4 \<le> dataSize d \<Longrightarrow> scanned b' off (map (reread b' p) es)"
proof (induction es arbitrary: off)
  case Nil
  then show ?case by simp
next
  case (Cons x xs)
  from Cons.prems(1) have off: "off < length b" and x: "element_at b off = Inr x"
    and xs: "scanned b (off + 5 + dataSize x) xs" by simp_all
  have dx: "dataOffset x = off + 5" using x by (rule element_at_Inr)
  have later: "off + 10 + dataSize x \<le> dataOffset e" if "e \<in> set xs" for e
    using scanned_element_at [OF xs that] by simp
  show ?case
  proof (cases "dataOffset x = p")
    case True
    have p: "p = off + 5" using True dx by simp
    have "d \<notin> set xs"
      using later [of d] Cons.prems(3) p by auto
    with Cons.prems(2) have dx': "d = x" by simp
    have ty: "type x = ''f''" and sz: "4 \<le> dataSize x"
      using Cons.prems(4,5) dx' by simp_all
    have "reread b' p e = e" if "e \<in> set xs" for e
      using later [OF that] p by (intro reread_other) simp
    then have m: "map (reread b' p) xs = xs"
      by (simp add: map_idI)
    have "drop (off + 5 + dataSize x) b' = drop (off + 5 + dataSize x) b"
      using post by (rule drop_suffix) (use p sz in simp)
    with len have rest: "scanned b' (off + 5 + dataSize x) xs"
      using xs by (rule scanned_suffix)
    have "element_at b' off = Inr (reread b' p x)"
      unfolding p using len pre [unfolded p] x ty by (rule element_at_patched)
    moreover have "dataSize (reread b' p x) = dataSize x"
      by (rule reread_fields)
    ultimately show ?thesis
      using off len rest m by simp
  next
    case False
    with Cons.prems(2,3) have d: "d \<in> set xs" by auto
    from later [OF d] Cons.prems(3) have far: "off + 9 \<le> p" by simp
    have "take 9 (drop off b') = take 9 (drop off b)"
      using pre far by (rule take_drop_prefix)
    with len have "element_at b' off = element_at b off"
      by (rule element_at_cong)
    moreover have "reread b' p x = x"
      using False by (rule reread_other)
    moreover have "scanned b' (off + 5 + dataSize x) (map (reread b' p) xs)"
      using xs d Cons.prems(3,4,5) by (rule Cons.IH)
    ultimately show ?thesis
      using off len x by simp
  qed
qed

lemma find_map_reread:
  "find (named n) (map (reread b p) es) = map_option (reread b p) (find (named n) es)"
  by (induction es) (simp_all add: named_def reread_fields)

lemma scanned_same_offset:
  assumes "scanned b off es" and "e1 \<in> set es" and "e2 \<in> set es"
    and "dataOffset e1 = dataOffset e2"
  shows "e1 = e2"
proof -
  have "element_at b (dataOffset e1 - 5) = Inr e1"
    using scanned_element_at [OF assms(1,2)] by (rule conjunct1)
  moreover have "element_at b (dataOffset e1 - 5) = Inr e2"
    using scanned_element_at [OF assms(1,3)] unfolding assms(4) by (rule conjunct1)
  ultimately have "Inr e1 = (Inr e2 :: error + element)"
    by (rule trans [OF sym])
  then show ?thesis
    by (simp only: sum.inject)
qed

lemma length_bytes32: "length (bytes32 n) = 4"
  by (simp add: bytes32_def)

text \<open>The buffer after a patch, and what \<open>process\<close> does with it.\<close>

lemma process_patched:
  assumes sc: "scanned b 0 es"
    and seg: "find (named ''Segment'') es = Some seg"
    and info: "find (named ''Info'') es = Some info"
    and d: "find (named ''Duration'') es = Some d"
    and t: "find (named ''TimecodeScale'') es = Some t"
    and sz: "4 \<le> dataSize d" and fit: "dataOffset d + dataSize d \<le> length b"
    and out: "out = take (dataOffset d) b @ src @ drop (dataOffset d + 4) b"
    and src: "length src = 4"
  shows "scanned out 0 (map (reread out (dataOffset d)) es)"
    and "process nan out =
      Some (Inr (take (dataOffset d) out @
        bytes32 (float32_bits nan (scaled_duration (Some (float32_value (be32 src))) (val t))) @
        drop (dataOffset d + 4) out))"
proof -
  let ?p = "dataOffset d"
  let ?es' = "map (reread out ?p) es"
  have len: "length out = length b"
    using sz fit src by (simp add: out)
  have pre: "take ?p out = take ?p b"
    using sz fit by (simp add: out)
  have post: "drop (?p + 4) out = drop (?p + 4) b"
    using sz fit src by (simp add: out)
  have at: "take 4 (drop ?p out) = src"
    using sz fit src by (simp add: out)
  have din: "d \<in> set es" and tin: "t \<in> set es"
    using find_in_set [OF d] find_in_set [OF t] by simp_all
  have nd: "name d = ''Duration''" and nt: "name t = ''TimecodeScale''"
    using find_named [OF d] find_named [OF t] by simp_all
  have "element_at b (?p - 5) = Inr d"
    using scanned_element_at [OF sc din] by simp
  then have ty: "type d = ''f''"
    using nd by (rule element_at_Duration)
  show sc': "scanned out 0 ?es'"
    using len pre post sc din refl ty sz by (rule scanned_patch)
  have "dataOffset t \<noteq> ?p"
    using scanned_same_offset [OF sc tin din] nd nt by auto
  then have t': "reread out ?p t = t"
    by (rule reread_other)
  have d': "reread out ?p d =
      Element (name d) (type d) ?p (dataSize d) (children d) (Some (float32_value (be32 src)))"
    by (simp add: reread_def at)
  have "patch_flat nan out ?es' =
      Uint8Array_set out ?p (dataSize d)
        (bytes32 (float32_bits nan (scaled_duration (Some (float32_value (be32 src))) (val t))))"
    by (simp add: patch_flat_def find_map_reread seg info d t t' d')
  also have "\<dots> = Inr (take ?p out @
        bytes32 (float32_bits nan (scaled_duration (Some (float32_value (be32 src))) (val t))) @
        drop (?p + 4) out)"
    using sz fit len by (simp add: Uint8Array_set_def length_bytes32)
  finally have "patch_flat nan out ?es' = Inr (take ?p out @
        bytes32 (float32_bits nan (scaled_duration (Some (float32_value (be32 src))) (val t))) @
        drop (?p + 4) out)" .
  moreover have "decode_loop out 0 [] = Some (Inr ?es')"
    using sc' by (simp add: decode_loop_scanned)
  ultimately show "process nan out =
      Some (Inr (take ?p out @
        bytes32 (float32_bits nan (scaled_duration (Some (float32_value (be32 src))) (val t))) @
        drop (?p + 4) out))"
    by (simp add: process_flat)
qed


section \<open>What process does\<close>

lemma tree_lookups:
  assumes ch: "\<forall>e \<in> set es. children e = []"
  shows "infoEl (build_tree es) = None \<longleftrightarrow>
      find (named ''Segment'') es = None \<or> find (named ''Info'') es = None"
    and "durationEl (build_tree es) =
      (if find (named ''Segment'') es = None \<or> find (named ''Info'') es = None then None
       else find (named ''Duration'') es)"
    and "timecodeScaleEl (build_tree es) =
      (if find (named ''Segment'') es = None \<or> find (named ''Info'') es = None then None
       else find (named ''TimecodeScale'') es)"
proof -
  consider (noseg) "find (named ''Segment'') es = None"
    | (noinfo) "find (named ''Info'') es = None"
    | (both) seg info where "find (named ''Segment'') es = Some seg"
        "find (named ''Info'') es = Some info"
    by (cases "find (named ''Segment'') es"; cases "find (named ''Info'') es") simp_all
  then have "(infoEl (build_tree es) = None \<longleftrightarrow>
      find (named ''Segment'') es = None \<or> find (named ''Info'') es = None) \<and>
    durationEl (build_tree es) =
      (if find (named ''Segment'') es = None \<or> find (named ''Info'') es = None then None
       else find (named ''Duration'') es) \<and>
    timecodeScaleEl (build_tree es) =
      (if find (named ''Segment'') es = None \<or> find (named ''Info'') es = None then None
       else find (named ''TimecodeScale'') es)"
  proof cases
    case noseg
    then show ?thesis
      by (simp add: durationEl_def timecodeScaleEl_def tree_no_segment)
  next
    case noinfo
    then show ?thesis
      by (simp add: durationEl_def timecodeScaleEl_def tree_no_info [OF ch])
  next
    case both
    from tree_both [OF ch both] both show ?thesis
      by simp
  qed
  then show "infoEl (build_tree es) = None \<longleftrightarrow>
      find (named ''Segment'') es = None \<or> find (named ''Info'') es = None"
    and "durationEl (build_tree es) =
      (if find (named ''Segment'') es = None \<or> find (named ''Info'') es = None then None
       else find (named ''Duration'') es)"
    and "timecodeScaleEl (build_tree es) =
      (if find (named ''Segment'') es = None \<or> find (named ''Info'') es = None then None
       else find (named ''TimecodeScale'') es)"
    by simp_all
qed

text \<open>A successful decode, in terms of the scan.\<close>

lemma decode_Inr:
  assumes "decode b = Some (Inr elms)"
  obtains es where "scanned b 0 es" and "elms = build_tree es"
    and "decode_loop b 0 [] = Some (Inr es)"
proof -
  from assms obtain es where es: "decode_loop b 0 [] = Some (Inr es)" and "elms = build_tree es"
    by (auto simp: decode_def split: option.splits sum.splits)
  moreover from es have "scanned b 0 es"
    by (simp add: decode_loop_scanned)
  ultimately show ?thesis
    using that by blast
qed

lemma decode_scanned: "scanned b 0 es \<Longrightarrow> decode b = Some (Inr (build_tree es))"
  by (simp add: decode_def decode_loop_scanned [symmetric])

text \<open>Both elements found in the tree: what they are in the scan.\<close>

lemma found_both:
  assumes sc: "scanned b 0 es"
    and d: "durationEl (build_tree es) = Some d"
    and t: "timecodeScaleEl (build_tree es) = Some t"
  shows "\<exists>seg info. find (named ''Segment'') es = Some seg \<and> find (named ''Info'') es = Some info"
    and "find (named ''Duration'') es = Some d"
    and "find (named ''TimecodeScale'') es = Some t"
    and "patch_flat nan b es =
      Uint8Array_set b (dataOffset d) (dataSize d)
        (bytes32 (float32_bits nan (scaled_duration (val d) (val t))))"
proof -
  note tl = tree_lookups [OF scanned_children [OF sc]]
  from d tl(2) have si: "\<not> (find (named ''Segment'') es = None \<or> find (named ''Info'') es = None)"
    by (auto split: if_splits)
  then show 1: "\<exists>seg info. find (named ''Segment'') es = Some seg \<and>
      find (named ''Info'') es = Some info"
    by auto
  from d tl(2) si show 2: "find (named ''Duration'') es = Some d"
    by simp
  from t tl(3) si show 3: "find (named ''TimecodeScale'') es = Some t"
    by simp
  from 1 2 3 show "patch_flat nan b es =
      Uint8Array_set b (dataOffset d) (dataSize d)
        (bytes32 (float32_bits nan (scaled_duration (val d) (val t))))"
    by (auto simp: patch_flat_def)
qed

lemma not_found_both:
  assumes sc: "scanned b 0 es"
    and "durationEl (build_tree es) = None \<or> timecodeScaleEl (build_tree es) = None"
  shows "patch_flat nan b es = Inr b"
proof -
  note tl = tree_lookups [OF scanned_children [OF sc]]
  from assms(2) tl(2,3) show ?thesis
    by (auto simp: patch_flat_def split: option.splits if_splits)
qed

lemma process_scanned: "scanned b 0 es \<Longrightarrow> process nan b = Some (patch_flat nan b es)"
  by (simp add: process_flat decode_loop_scanned [symmetric])


section \<open>The test buffers\<close>

lemmas patch_eval = patch_flat_def named_def Uint8Array_set_def float_eval

lemma double_scale_scanned:
  "scanned double_scale_buffer 0 (double_scale_scan (Finite False 1))"
  "scanned double_scale_once 0 (double_scale_scan (Finite False 2))"
  by (simp_all add: double_scale_buffer_def double_scale_once_def double_scale_scan_def
      read_eval float32_value_def)

lemma double_scale_process:
  "process nan double_scale_buffer = Some (Inr double_scale_once)"
  "process nan double_scale_once = Some (Inr double_scale_twice)"
  unfolding process_scanned [OF double_scale_scanned(1)]
    process_scanned [OF double_scale_scanned(2)]
  by (simp_all add: double_scale_scan_def double_scale_buffer_def double_scale_once_def
      double_scale_twice_def patch_eval)



text \<open>
  When the scaled duration is a NaN, the four bytes written are those of the pattern
  that the engine chooses: \<open>FF C0 00 00\<close> for one that writes \<open>0xFFC00000\<close> and
  \<open>7F C0 00 00\<close> for one that writes \<open>0x7FC00000\<close>.
\<close>

lemma nan_scanned: "scanned nan_buffer 0 nan_scan"
  by (simp add: nan_buffer_def nan_scan_def read_eval float32_value_def)

lemma nan_process:
  "process nan nan_buffer = Some (Inr (take 24 nan_buffer @ bytes32 nan))"
  "bytes32 0xFFC00000 = [0xFF, 0xC0, 0x00, 0x00]"
  "bytes32 0x7FC00000 = [0x7F, 0xC0, 0x00, 0x00]"
  unfolding process_scanned [OF nan_scanned]
  by (simp_all add: nan_scan_def nan_buffer_def patch_eval bytes32_def)

lemma sample_process: "process nan sample_buffer = Some (Inr sample_buffer)"
  unfolding process_scanned [OF sample_scanned]
  by (simp add: sample_scan_def sample_timecode_def sample_duration_def sample_buffer_def
      patch_eval)


section \<open>Claims about process\<close>






section \<open>Returned buffers\<close>

lemma process_Inr:
  assumes "process nan b = Some (Inr out)"
  obtains es where "scanned b 0 es" and "patch_flat nan b es = Inr out"
proof -
  from assms obtain es where es: "decode_loop b 0 [] = Some (Inr es)"
    and "patch_flat nan b es = Inr out"
    by (auto simp: process_flat split: option.splits sum.splits)
  moreover from es have "scanned b 0 es"
    by (simp add: decode_loop_scanned)
  ultimately show ?thesis
    using that by blast
qed

lemma Uint8Array_set_Inr:
  assumes "Uint8Array_set b p n src = Inr out" and "length src = 4"
  shows "4 \<le> n" and "p + n \<le> length b" and "out = take p b @ src @ drop (p + 4) b"
  using assms by (auto simp: Uint8Array_set_def split: if_splits)

lemma patched_facts:
  assumes "p + 4 \<le> length b" and "length src = 4"
    and "out = take p b @ src @ drop (p + 4) b"
  shows "length out = length b" and "take p out = take p b"
    and "drop (p + 4) out = drop (p + 4) b" and "take 4 (drop p out) = src"
    and "\<And>i. i < p \<Longrightarrow> out ! i = b ! i"
    and "\<And>i. p + 4 \<le> i \<Longrightarrow> i < length b \<Longrightarrow> out ! i = b ! i"
proof -
  show len: "length out = length b" using assms by simp
  show "take p out = take p b" using assms by simp
  show post: "drop (p + 4) out = drop (p + 4) b" using assms by simp
  show "take 4 (drop p out) = src" using assms by simp
  show "out ! i = b ! i" if "i < p" for i
    using that assms by (simp add: nth_append)
  show "out ! i = b ! i" if "p + 4 \<le> i" "i < length b" for i
  proof -
    have "drop (p + 4) out ! (i - (p + 4)) = out ! (p + 4 + (i - (p + 4)))"
      using assms(1) len by (intro nth_drop) simp
    moreover have "drop (p + 4) b ! (i - (p + 4)) = b ! (p + 4 + (i - (p + 4)))"
      using assms(1) by (intro nth_drop) simp
    ultimately show ?thesis
      using that(1) by (simp add: post)
  qed
qed


text \<open>The two ways in which \<open>process\<close> returns a buffer.\<close>

lemma process_cases:
  assumes "process nan b = Some (Inr out)"
  obtains (unchanged) es where "scanned b 0 es"
      and "durationEl (build_tree es) = None \<or> timecodeScaleEl (build_tree es) = None"
      and "out = b"
    | (patched) es d t where "scanned b 0 es"
      and "durationEl (build_tree es) = Some d" and "timecodeScaleEl (build_tree es) = Some t"
      and "4 \<le> dataSize d" and "dataOffset d + dataSize d \<le> length b"
      and "out = take (dataOffset d) b @
             bytes32 (float32_bits nan (scaled_duration (val d) (val t))) @
             drop (dataOffset d + 4) b"
proof -
  from assms obtain es where sc: "scanned b 0 es" and pf: "patch_flat nan b es = Inr out"
    by (rule process_Inr)
  show ?thesis
  proof (cases "durationEl (build_tree es) = None \<or> timecodeScaleEl (build_tree es) = None")
    case True
    with not_found_both [OF sc True] pf sc show ?thesis
      by (intro unchanged [of es]) simp_all
  next
    case False
    then obtain d t where d: "durationEl (build_tree es) = Some d"
      and t: "timecodeScaleEl (build_tree es) = Some t"
      by auto
    from found_both(4) [OF sc d t] pf
    have "Uint8Array_set b (dataOffset d) (dataSize d)
        (bytes32 (float32_bits nan (scaled_duration (val d) (val t)))) = Inr out"
      by simp
    from Uint8Array_set_Inr [OF this length_bytes32] sc d t show ?thesis
      by (intro patched [of es d t]) simp_all
  qed
qed

text \<open>The scan of the buffer that a patching run returns.\<close>

lemma patched_scan:
  assumes sc: "scanned b 0 es"
    and d: "durationEl (build_tree es) = Some d" and t: "timecodeScaleEl (build_tree es) = Some t"
    and sz: "4 \<le> dataSize d" and fit: "dataOffset d + dataSize d \<le> length b"
    and out: "out = take (dataOffset d) b @ src @ drop (dataOffset d + 4) b"
    and src: "length src = 4"
  shows "scanned out 0 (map (reread out (dataOffset d)) es)"
    and "process nan out =
      Some (Inr (take (dataOffset d) out @
        bytes32 (float32_bits nan (scaled_duration (Some (float32_value (be32 src))) (val t))) @
        drop (dataOffset d + 4) out))"
proof -
  from found_both(1) [OF sc d t] obtain seg info
    where seg: "find (named ''Segment'') es = Some seg"
      and info: "find (named ''Info'') es = Some info"
    by blast
  note fd = found_both(2) [OF sc d t] and ft = found_both(3) [OF sc d t]
  show "scanned out 0 (map (reread out (dataOffset d)) es)"
    using sc seg info fd ft sz fit out src by (rule process_patched(1))
  show "process nan out =
      Some (Inr (take (dataOffset d) out @
        bytes32 (float32_bits nan (scaled_duration (Some (float32_value (be32 src))) (val t))) @
        drop (dataOffset d + 4) out))"
    using sc seg info fd ft sz fit out src by (rule process_patched(2))
qed

lemma map_build_tree_reread:
  assumes "\<And>e cs. f (push_children e cs) = f e" and "\<And>e. f (reread b p e) = f e"
  shows "map f (build_tree (map (reread b p) es)) = map f (build_tree es)"
proof -
  have "map f (build_tree (map (reread b p) es)) = map f (map (reread b p) es)"
    using assms(1) by (rule build_tree_map)
  also have "\<dots> = map f es"
    by (simp add: assms(2))
  also have "\<dots> = map f (build_tree es)"
    using assms(1) by (rule build_tree_map [symmetric])
  finally show ?thesis .
qed

section \<open>Claims about the returned buffer\<close>

text \<open>
  C3: whenever \<open>process\<close> returns a buffer, it has the length of the input; it is
  either the input itself or differs from it only inside the payload of the Duration
  element (more precisely, inside the first four bytes of that payload, which lies
  within the buffer and is at least four bytes long); and decoding the output gives
  elements with the same names, kinds, payload offsets and payload sizes as decoding
  the input, so that no element is inserted, removed or resized.
\<close>

theorem process_keeps_length_and_layout:
  assumes "process nan buffer = Some (Inr out)"
  shows "length out = length buffer \<and>
    (out = buffer \<or>
     (\<exists>elms d. decode buffer = Some (Inr elms) \<and> durationEl elms = Some d \<and>
        4 \<le> dataSize d \<and> dataOffset d + dataSize d \<le> length buffer \<and>
        (\<forall>i < length buffer. i < dataOffset d \<or> dataOffset d + 4 \<le> i \<longrightarrow>
           out ! i = buffer ! i))) \<and>
    (\<exists>elms elms'. decode buffer = Some (Inr elms) \<and> decode out = Some (Inr elms') \<and>
        map name elms' = map name elms \<and> map type elms' = map type elms \<and>
        map dataOffset elms' = map dataOffset elms \<and> map dataSize elms' = map dataSize elms)"
  using assms
proof (cases rule: process_cases)
  case (unchanged es)
  from decode_scanned [OF unchanged(1)] unchanged(3) show ?thesis
    by simp
next
  case (patched es d t)
  let ?p = "dataOffset d"
  let ?src = "bytes32 (float32_bits nan (scaled_duration (val d) (val t)))"
  have fit4: "?p + 4 \<le> length buffer"
    using patched(4,5) by simp
  note pf = patched_facts [OF fit4 length_bytes32 patched(6)]
  note dec = decode_scanned [OF patched(1)]
  have bytes: "\<forall>i < length buffer. i < ?p \<or> ?p + 4 \<le> i \<longrightarrow> out ! i = buffer ! i"
    using pf(5,6) by blast
  have "scanned out 0 (map (reread out ?p) es)"
    using patched(1-6) length_bytes32 by (rule patched_scan(1))
  then have dec': "decode out = Some (Inr (build_tree (map (reread out ?p) es)))"
    by (rule decode_scanned)
  have lay: "map name (build_tree (map (reread out ?p) es)) = map name (build_tree es)"
    "map type (build_tree (map (reread out ?p) es)) = map type (build_tree es)"
    "map dataOffset (build_tree (map (reread out ?p) es)) = map dataOffset (build_tree es)"
    "map dataSize (build_tree (map (reread out ?p) es)) = map dataSize (build_tree es)"
    by (rule map_build_tree_reread; simp add: push_children_def reread_fields)+
  have "\<exists>elms d. decode buffer = Some (Inr elms) \<and> durationEl elms = Some d \<and>
        4 \<le> dataSize d \<and> dataOffset d + dataSize d \<le> length buffer \<and>
        (\<forall>i < length buffer. i < dataOffset d \<or> dataOffset d + 4 \<le> i \<longrightarrow>
           out ! i = buffer ! i)"
    using dec patched(2,4,5) bytes by blast
  moreover have "\<exists>elms elms'. decode buffer = Some (Inr elms) \<and> decode out = Some (Inr elms') \<and>
        map name elms' = map name elms \<and> map type elms' = map type elms \<and>
        map dataOffset elms' = map dataOffset elms \<and> map dataSize elms' = map dataSize elms"
    using dec dec' lay by blast
  ultimately show ?thesis
    using pf(1) by blast
qed


theorem process_keeps_length_and_layout_witness:
  "process 0x7FC00000 double_scale_buffer = Some (Inr double_scale_once) \<and>
   length double_scale_once = length double_scale_buffer \<and>
   double_scale_once \<noteq> double_scale_buffer \<and>
   decode double_scale_buffer = Some (Inr (build_tree (double_scale_scan (Finite False 1)))) \<and>
   decode double_scale_once = Some (Inr (build_tree (double_scale_scan (Finite False 2)))) \<and>
   map dataOffset (build_tree (double_scale_scan (Finite False 2))) =
     map dataOffset (build_tree (double_scale_scan (Finite False 1))) \<and>
   map dataSize (build_tree (double_scale_scan (Finite False 2))) =
     map dataSize (build_tree (double_scale_scan (Finite False 1)))"
proof -
  note th = process_keeps_length_and_layout [OF double_scale_process(1)]
  note d1 = decode_scanned [OF double_scale_scanned(1)]
  note d2 = decode_scanned [OF double_scale_scanned(2)]
  have "double_scale_once \<noteq> double_scale_buffer"
    by (simp add: double_scale_once_def double_scale_buffer_def)
  moreover from th [THEN conjunct2, THEN conjunct2] d1 d2
  have "map dataOffset (build_tree (double_scale_scan (Finite False 2))) =
      map dataOffset (build_tree (double_scale_scan (Finite False 1))) \<and>
    map dataSize (build_tree (double_scale_scan (Finite False 2))) =
      map dataSize (build_tree (double_scale_scan (Finite False 1)))"
    by auto
  ultimately show ?thesis
    using th [THEN conjunct1] double_scale_process(1) d1 d2 by blast
qed

text \<open>
  When \<open>process\<close> throws. It always returns a buffer or throws a RangeError; it throws
  exactly when the scan of the decoder reads beyond the end of the buffer, or when
  Duration and TimecodeScale are found and the payload that the Duration element
  declares is shorter than four bytes or runs past the end of the buffer. A non-empty
  buffer of fewer than five bytes always makes the scan read beyond the end. A buffer
  returned when the two elements were not both found is the input.
\<close>

lemma process_throws_iff:
  "(\<exists>r. process nan buffer = Some r) \<and>
   (process nan buffer = Some (Inl RangeError) \<longleftrightarrow>
      decode buffer = Some (Inl RangeError) \<or>
      (\<exists>elms d t. decode buffer = Some (Inr elms) \<and> durationEl elms = Some d \<and>
         timecodeScaleEl elms = Some t \<and>
         (dataSize d < 4 \<or> length buffer < dataOffset d + dataSize d))) \<and>
   (0 < length buffer \<and> length buffer < 5 \<longrightarrow> decode buffer = Some (Inl RangeError)) \<and>
   (\<forall>out. process nan buffer = Some (Inr out) \<and>
      \<not> (\<exists>elms d t. decode buffer = Some (Inr elms) \<and> durationEl elms = Some d \<and>
            timecodeScaleEl elms = Some t) \<longrightarrow>
      out = buffer)"
proof -
  obtain r where r: "decode_loop buffer 0 [] = Some r"
    using decode_loop_total by blast
  have short: "decode buffer = Some (Inl RangeError)"
    if "0 < length buffer" "length buffer < 5"
  proof -
    have "element_at buffer 0 = Inl RangeError"
      using that by (simp add: element_at_eq readEbmlHeader_eq)
    then have "decode_loop buffer 0 [] = Some (Inl RangeError)"
      using that(1) by (subst decode_loop_step) simp
    then show ?thesis
      by (simp add: decode_def)
  qed
  show ?thesis
  proof (cases r)
    case (Inl e)
    have e: "e = RangeError" by (cases e) simp
    from r Inl e have "decode buffer = Some (Inl RangeError)"
      and "process nan buffer = Some (Inl RangeError)"
      by (simp_all add: decode_def process_flat)
    with short show ?thesis
      by simp
  next
    case (Inr es)
    with r have sc: "scanned buffer 0 es"
      by (simp add: decode_loop_scanned)
    note dec = decode_scanned [OF sc]
    note pr = process_scanned [OF sc, of nan]
    show ?thesis
    proof (cases "durationEl (build_tree es) = None \<or> timecodeScaleEl (build_tree es) = None")
      case True
      from not_found_both [OF sc True] pr have "process nan buffer = Some (Inr buffer)"
        by simp
      with dec True short show ?thesis
        by auto
    next
      case False
      then obtain d t where d: "durationEl (build_tree es) = Some d"
        and t: "timecodeScaleEl (build_tree es) = Some t"
        by auto
      have "process nan buffer =
          Some (Uint8Array_set buffer (dataOffset d) (dataSize d)
            (bytes32 (float32_bits nan (scaled_duration (val d) (val t)))))"
        using found_both(4) [OF sc d t] pr by simp
      then have "process nan buffer = Some (Inl RangeError) \<longleftrightarrow>
          dataSize d < 4 \<or> length buffer < dataOffset d + dataSize d"
        by (auto simp: Uint8Array_set_def length_bytes32)
      moreover have "\<exists>r. process nan buffer = Some r"
        using pr by simp
      ultimately show ?thesis
        using dec d t short by auto
    qed
  qed
qed


lemma truncated_magic_scanned:
  "scanned [0x1A, 0x45, 0xDF, 0xA3, 0xFF] 0 [Element ''Unknown'' ''b'' 5 127 [] None]"
  by (simp add: read_eval)

text \<open>
  C2: for every buffer that is not valid EBML, \<open>process\<close> is to return the input
  unchanged and never to throw. The code does not do so on every such buffer. The loop
  of its decoder only checks that the cursor is below the length of the buffer before
  it reads a five-byte header there, so on the three bytes \<open>1A 45 DF\<close> of a cut EBML
  magic number the read of the ID runs past the end of the buffer, and with no handler
  in \<open>process\<close> the RangeError reaches the caller. The same happens on the sample buffer
  cut inside the header of its Duration element. The five bytes \<open>1A 45 DF A3 FF\<close>, which
  are not valid EBML either, are returned unchanged, as the claim asks.
\<close>

theorem process_throws_on_truncated_input:
  "element_at [0x1A, 0x45, 0xDF] 0 = Inl RangeError \<and>
   decode [0x1A, 0x45, 0xDF] = Some (Inl RangeError) \<and>
   process nan [0x1A, 0x45, 0xDF] = Some (Inl RangeError) \<and>
   process nan (take 21 sample_buffer) = Some (Inl RangeError) \<and>
   process nan [0x1A, 0x45, 0xDF, 0xA3, 0xFF] = Some (Inr [0x1A, 0x45, 0xDF, 0xA3, 0xFF])"
proof -
  have "decode_loop [0x1A, 0x45, 0xDF] 0 [] = Some (Inl RangeError)"
    by (subst decode_loop_step) (simp add: read_eval)
  moreover have "decode_loop (take 21 sample_buffer) 0 [] = Some (Inl RangeError)"
    by (simp add: sample_buffer_def decode_loop.simps read_eval)
  moreover have "element_at [0x1A, 0x45, 0xDF] 0 = Inl RangeError"
    by (simp add: read_eval)
  moreover have "process nan [0x1A, 0x45, 0xDF, 0xA3, 0xFF] =
      Some (Inr [0x1A, 0x45, 0xDF, 0xA3, 0xFF])"
    unfolding process_scanned [OF truncated_magic_scanned]
    by (simp add: patch_flat_def named_def)
  ultimately show ?thesis
    by (simp add: process_flat decode_def)
qed


section \<open>Running process twice\<close>

lemma duration_value:
  assumes "decode buffer = Some (Inr elms)"
    and "durationEl elms = Some d" and "timecodeScaleEl elms = Some t"
  shows "val d = Some (float32_value (be32 (take 4 (drop (dataOffset d) buffer))))"
proof -
  from assms(1) obtain es where sc: "scanned buffer 0 es" and elms: "elms = build_tree es"
    by (rule decode_Inr)
  note fb = found_both [OF sc assms(2,3) [unfolded elms]]
  have din: "d \<in> set es"
    using find_in_set [OF fb(2)] by simp
  have nd: "name d = ''Duration''"
    using find_named [OF fb(2)] by simp
  from scanned_element_at [OF sc din] have "element_at buffer (dataOffset d - 5) = Inr d"
    and d5: "5 \<le> dataOffset d" by simp_all
  from element_at_Duration(2) [OF this(1) nd] d5 show ?thesis
    by simp
qed

text \<open>
  C6 (as amended): if \<open>process\<close> returns on a buffer, it returns on its own output
  too, with a buffer of the same length. When the first run found no Duration or no
  TimecodeScale, the second output is equal to the first. Otherwise the second run
  writes, over the same four bytes, the duration that it reads back from the first
  output scaled by TimecodeScale / 1000 / 1000 once more, so that the second output is
  equal to the first exactly when that value is encoded by the four bytes already
  there. This is so whenever the TimecodeScale is 1000000 and the duration read by the
  first run is not a NaN; the first run then returns its input unchanged as well.
  \<open>nan\<close> and \<open>nan'\<close> are the patterns that the engine may write for a NaN in the first
  and in the second run.
\<close>

theorem process_twice:
  assumes "process nan buffer = Some (Inr out)" and "decode buffer = Some (Inr elms)"
  shows "\<exists>out2. process nan' out = Some (Inr out2) \<and> length out2 = length out \<and>
    (durationEl elms = None \<or> timecodeScaleEl elms = None \<longrightarrow> out2 = out) \<and>
    (\<forall>d t. durationEl elms = Some d \<and> timecodeScaleEl elms = Some t \<longrightarrow>
       out2 = take (dataOffset d) out @
         bytes32 (float32_bits nan' (scaled_duration
           (Some (float32_value (be32 (take 4 (drop (dataOffset d) out))))) (val t))) @
         drop (dataOffset d + 4) out \<and>
       (out2 = out \<longleftrightarrow>
          bytes32 (float32_bits nan' (scaled_duration
            (Some (float32_value (be32 (take 4 (drop (dataOffset d) out))))) (val t))) =
          take 4 (drop (dataOffset d) out)) \<and>
       (val t = Some (Finite False 1000000) \<and> val d \<noteq> Some NaN \<longrightarrow>
          out = buffer \<and> out2 = out))"
  using assms(1)
proof (cases rule: process_cases)
  case (unchanged es)
  from assms(2) decode_scanned [OF unchanged(1)] have elms: "elms = build_tree es"
    by simp
  from unchanged(2) have "\<not> (durationEl elms = Some d \<and> timecodeScaleEl elms = Some t)" for d t
    unfolding elms by auto
  moreover have "process nan' out = Some (Inr out)"
    unfolding unchanged(3)
    using process_scanned [OF unchanged(1), of nan'] not_found_both [OF unchanged(1,2), of nan']
    by simp
  ultimately show ?thesis
    by auto
next
  case (patched es d t)
  from assms(2) decode_scanned [OF patched(1)] have elms: "elms = build_tree es"
    by simp
  let ?p = "dataOffset d"
  let ?bs = "take 4 (drop ?p buffer)"
  let ?src = "bytes32 (float32_bits nan (scaled_duration (val d) (val t)))"
  let ?src2 = "bytes32 (float32_bits nan'
      (scaled_duration (Some (float32_value (be32 ?src))) (val t)))"
  define pre where "pre = take ?p out"
  define post where "post = drop (?p + 4) out"
  have fit4: "?p + 4 \<le> length buffer"
    using patched(4,5) by simp
  note pf = patched_facts [OF fit4 length_bytes32 patched(6)]
  have p2: "process nan' out = Some (Inr (pre @ ?src2 @ post))"
    unfolding pre_def post_def
    using patched(1-6) length_bytes32 by (rule patched_scan(2))
  have O: "out = pre @ ?src @ post"
    unfolding pre_def post_def by (simp only: pf(2,3), rule patched(6))
  have len2: "length (pre @ ?src2 @ post) = length out"
    using fit4 pf(1) by (simp add: pre_def post_def length_bytes32)
  have iff: "pre @ ?src2 @ post = out \<longleftrightarrow> ?src2 = ?src"
    using O by simp
  have same: "out = buffer \<and> pre @ ?src2 @ post = out"
    if t: "val t = Some (Finite False 1000000)" and d: "val d \<noteq> Some NaN"
  proof -
    from decode_scanned [OF patched(1)] patched(2,3)
    have vd: "val d = Some (float32_value (be32 ?bs))"
      by (rule duration_value)
    have l: "length ?bs = 4"
      using fit4 by simp
    have nn: "float32_value (be32 ?bs) \<noteq> NaN"
      using d vd by simp
    have src': "bytes32 (float32_bits nan
        (scaled_duration (val d) (Some (Finite False 1000000)))) = ?bs"
      unfolding vd using l nn by (rule million_unchanged)
    then have src: "?src = ?bs"
      by (simp only: t)
    have "?src2 = ?bs"
      unfolding t src' using l nn by (rule million_unchanged)
    with src have "?src2 = ?src"
      by simp
    moreover have "out = buffer"
    proof -
      have "?bs @ drop (?p + 4) buffer = drop ?p buffer"
        using append_take_drop_id [of 4 "drop ?p buffer"] by (simp add: add.commute)
      then have "take ?p buffer @ ?bs @ drop (?p + 4) buffer = buffer"
        by simp
      with patched(6) src show ?thesis
        by simp
    qed
    ultimately show ?thesis
      using iff by simp
  qed
  have A: "pre @ ?src2 @ post = take ?p out @
         bytes32 (float32_bits nan' (scaled_duration
           (Some (float32_value (be32 (take 4 (drop ?p out))))) (val t))) @
         drop (?p + 4) out"
    by (simp only: pre_def post_def pf(4))
  have B: "pre @ ?src2 @ post = out \<longleftrightarrow>
          bytes32 (float32_bits nan' (scaled_duration
            (Some (float32_value (be32 (take 4 (drop ?p out))))) (val t))) =
          take 4 (drop ?p out)"
    by (simp only: pf(4) iff)
  have C: "val t = Some (Finite False 1000000) \<and> val d \<noteq> Some NaN \<longrightarrow>
          out = buffer \<and> pre @ ?src2 @ post = out"
    using same by blast
  have D: "\<forall>d' t'. durationEl elms = Some d' \<and> timecodeScaleEl elms = Some t' \<longrightarrow>
       pre @ ?src2 @ post = take (dataOffset d') out @
         bytes32 (float32_bits nan' (scaled_duration
           (Some (float32_value (be32 (take 4 (drop (dataOffset d') out))))) (val t'))) @
         drop (dataOffset d' + 4) out \<and>
       (pre @ ?src2 @ post = out \<longleftrightarrow>
          bytes32 (float32_bits nan' (scaled_duration
            (Some (float32_value (be32 (take 4 (drop (dataOffset d') out))))) (val t'))) =
          take 4 (drop (dataOffset d') out)) \<and>
       (val t' = Some (Finite False 1000000) \<and> val d' \<noteq> Some NaN \<longrightarrow>
          out = buffer \<and> pre @ ?src2 @ post = out)"
  proof (intro allI impI)
    fix d' t'
    assume "durationEl elms = Some d' \<and> timecodeScaleEl elms = Some t'"
    with patched(2,3) have eq: "d' = d" "t' = t"
      unfolding elms by simp_all
    show "pre @ ?src2 @ post = take (dataOffset d') out @
         bytes32 (float32_bits nan' (scaled_duration
           (Some (float32_value (be32 (take 4 (drop (dataOffset d') out))))) (val t'))) @
         drop (dataOffset d' + 4) out \<and>
       (pre @ ?src2 @ post = out \<longleftrightarrow>
          bytes32 (float32_bits nan' (scaled_duration
            (Some (float32_value (be32 (take 4 (drop (dataOffset d') out))))) (val t'))) =
          take 4 (drop (dataOffset d') out)) \<and>
       (val t' = Some (Finite False 1000000) \<and> val d' \<noteq> Some NaN \<longrightarrow>
          out = buffer \<and> pre @ ?src2 @ post = out)"
      unfolding eq by (rule conjI [OF A conjI [OF B C]])
  qed
  have E: "durationEl elms = None \<or> timecodeScaleEl elms = None \<longrightarrow>
      pre @ ?src2 @ post = out"
    using patched(2,3) unfolding elms by simp
  show ?thesis
    by (rule exI [where x = "pre @ ?src2 @ post"])
      (rule conjI [OF p2 conjI [OF len2 conjI [OF E D]]])
qed


lemma sample_found:
  "durationEl sample_tree = Some sample_duration"
  "timecodeScaleEl sample_tree = Some sample_timecode"
  by (simp_all add: durationEl_def timecodeScaleEl_def infoEl_def segmentEl_def sample_tree_def
      sample_info_def sample_duration_def sample_timecode_def named_def)

theorem process_twice_witness:
  "process 0x7FC00000 sample_buffer = Some (Inr sample_buffer) \<and>
   decode sample_buffer = Some (Inr sample_tree) \<and>
   durationEl sample_tree = Some sample_duration \<and>
   timecodeScaleEl sample_tree = Some sample_timecode \<and>
   val sample_timecode = Some (Finite False 1000000) \<and>
   val sample_duration \<noteq> Some NaN \<and>
   process 0xFFC00000 sample_buffer = Some (Inr sample_buffer)"
proof -
  have v: "val sample_timecode = Some (Finite False 1000000)" "val sample_duration \<noteq> Some NaN"
    by (simp_all add: sample_timecode_def sample_duration_def)
  from process_twice [OF sample_process [of "0x7FC00000"] sample_decode,
      where nan' = "0xFFC00000"]
  obtain out2 where 1: "process 0xFFC00000 sample_buffer = Some (Inr out2)"
    and 2: "\<forall>d t. durationEl sample_tree = Some d \<and> timecodeScaleEl sample_tree = Some t \<longrightarrow>
       (val t = Some (Finite False 1000000) \<and> val d \<noteq> Some NaN \<longrightarrow>
          sample_buffer = sample_buffer \<and> out2 = sample_buffer)"
    by blast
  from 2 sample_found v have "out2 = sample_buffer"
    by blast
  with 1 sample_decode sample_found v sample_process [of "0x7FC00000"] show ?thesis
    by blast
qed

text \<open>
  C6 as stated fails: with a TimecodeScale of 2000000 and a Duration of 1.0 the first
  run stores 2.0 and a second run on that output stores 4.0.
\<close>

theorem process_is_not_idempotent:
  "process 0x7FC00000 double_scale_buffer = Some (Inr double_scale_once) \<and>
   process 0x7FC00000 double_scale_once = Some (Inr double_scale_twice) \<and>
   double_scale_twice \<noteq> double_scale_once"
  using double_scale_process
  by (simp add: double_scale_twice_def double_scale_once_def)


section \<open>The earlier revision computes the same results\<close>

lemma sanitizeFilename_part_000_eq:
  "sanitizeFilename_part_000 title maxLength = sanitizeFilename title maxLength"
  by (simp add: sanitizeFilename_part_000_def sanitizeFilename_def Let_def)

lemma element_at_kind:
  assumes "element_at b off = Inr e"
  shows "name e = ''Segment'' \<Longrightarrow> type e = ''m''"
    and "name e = ''Info'' \<Longrightarrow> type e = ''m''"
    and "name e = ''TimecodeScale'' \<Longrightarrow> type e = ''u''"
proof -
  from assms obtain i where n: "name e = getTagName i" and t: "type e = getTagType i"
    by (auto simp: element_at_eq split: sum.splits)
  show "name e = ''Segment'' \<Longrightarrow> type e = ''m''"
    and "name e = ''Info'' \<Longrightarrow> type e = ''m''"
    and "name e = ''TimecodeScale'' \<Longrightarrow> type e = ''u''"
    unfolding n t
    by (auto simp: getTagName_def getTagType_def tagMap_def typeMap_def split: if_splits)
qed

lemma patch_part_000_eq:
  assumes sc: "scanned b 0 es"
  shows "patch_part_000 nan b (build_tree es) = patch nan b (build_tree es)"
proof -
  note ch = scanned_children [OF sc]
  note tl = tree_lookups [OF ch]
  have kind: "type e = k" if "find (named n) es = Some e"
    and "\<And>off e. element_at b off = Inr e \<Longrightarrow> name e = n \<Longrightarrow> type e = k" for e n k
  proof -
    from that(1) have "e \<in> set es" and "name e = n"
      by (rule find_in_set, rule find_named)
    with scanned_element_at [OF sc] that(2) show ?thesis
      by blast
  qed
  have a: "type s = ''m''" if s: "segmentEl (build_tree es) = Some s" for s
  proof (cases "find (named ''Segment'') es")
    case None
    with s show ?thesis by (simp add: build_tree_def segmentEl_def)
  next
    case seg: (Some seg)
    have m: "type seg = ''m''"
      using seg element_at_kind(1) by (rule kind)
    show ?thesis
    proof (cases "find (named ''Info'') es")
      case None
      with s seg m show ?thesis by (simp add: build_tree_def segmentEl_def)
    next
      case (Some info)
      from tree_both(4) [OF ch seg Some] s m show ?thesis by auto
    qed
  qed
  have b: "type i = ''m''" if i: "infoEl (build_tree es) = Some i" for i
  proof -
    from i tl(1) obtain seg info where seg: "find (named ''Segment'') es = Some seg"
      and info: "find (named ''Info'') es = Some info"
      by (cases "find (named ''Segment'') es"; cases "find (named ''Info'') es") auto
    have "type info = ''m''"
      using info element_at_kind(2) by (rule kind)
    with tree_both(5) [OF ch seg info] i show ?thesis by auto
  qed
  have c: "type t = ''u''" if t: "timecodeScaleEl (build_tree es) = Some t" for t
  proof -
    from t tl(3) have "find (named ''TimecodeScale'') es = Some t"
      by (auto split: if_splits)
    then show ?thesis
      using element_at_kind(3) by (rule kind)
  qed
  show ?thesis
  proof (cases "infoEl (build_tree es)")
    case None
    then show ?thesis
      by (auto simp: patch_part_000_def patch_def dest: a split: option.splits)
  next
    case (Some i)
    then obtain s where s: "segmentEl (build_tree es) = Some s"
      by (auto simp: infoEl_def split: option.splits)
    show ?thesis
      by (cases "durationEl (build_tree es)"; cases "timecodeScaleEl (build_tree es)")
        (simp_all add: patch_part_000_def patch_def Some s a b c)
  qed
qed

lemma process_part_000_eq: "process_part_000 nan b = process nan b"
proof (cases "decode b")
  case None
  then show ?thesis by (simp add: process_part_000_def process_def)
next
  case (Some r)
  show ?thesis
  proof (cases r)
    case (Inl e)
    with Some show ?thesis by (simp add: process_part_000_def process_def)
  next
    case (Inr elms)
    with Some obtain es where "scanned b 0 es" and "elms = build_tree es"
      by (auto elim: decode_Inr)
    with Some Inr show ?thesis
      by (simp add: process_part_000_def process_def patch_part_000_eq)
  qed
qed


end
